theory Spec2Isabelle
  imports Main "HOL-Library.Multiset" "HOL-Library.Word"
begin

section \<open>Letter Boxed: the dictionary trie and the chain search of \<^verbatim>\<open>letterboxed/main.go\<close>\<close>

text \<open>
  The program loads a word list into a trie, walks the trie under the side rule of a
  box of four sides of three letters, and counts the chains of three words that cover
  the box. This theory embeds these functions and proves what the specification says
  about them, or shows where the code does something else.

  Strings are lists of \<open>char\<close>. The word list and the box hold ASCII letters, so a Go rune
  is one byte there: \<^verbatim>\<open>range s\<close> visits the characters in order with their positions,
  and \<^verbatim>\<open>len(s)\<close> is the length of the list. Printing is left out: it changes no
  result.

  A function of the program either hands a value back to its caller (\<open>Inr\<close>) or ends the
  process (\<open>Inl\<close>): by a run-time panic (a nil pointer dereference, an index out of
  range) or by \<^verbatim>\<open>log.Fatalf\<close>, which prints and calls \<^verbatim>\<open>os.Exit(1)\<close>. Functions
  that can do neither return their value as it is.
\<close>

datatype abort = NilDereference | IndexOutOfRange | FatalExit

subsection \<open>The trie\<close>

text \<open>
  \<^verbatim>\<open>type trie struct { complete bool; children map[rune]*trie }\<close>.
  The map is an association list read with \<open>map_of\<close> (\<open>lookup\<close>) and written with
  \<open>store\<close>, which replaces the entry of a key or adds one. Every pointer the program
  stores in the map comes from \<^verbatim>\<open>&trie{...}\<close>, so a stored child is never nil; the
  only nil node is the result of reading a key that is absent (\<open>None\<close>).
\<close>

datatype trie = Trie (complete: bool) (children: "(char \<times> trie) list")

definition lookup :: "trie \<Rightarrow> char \<Rightarrow> trie option" where
  "lookup t ch = map_of (children t) ch"

fun store :: "char \<Rightarrow> trie \<Rightarrow> (char \<times> trie) list \<Rightarrow> (char \<times> trie) list" where
  "store k v [] = [(k, v)]"
| "store k v ((k', v') # kvs) = (if k = k' then (k, v) # kvs else (k', v') # store k v kvs)"

text \<open>
  The walk shared by \<^verbatim>\<open>isWordValid\<close>, \<^verbatim>\<open>allValidWords\<close> and \<^verbatim>\<open>explore\<close>:
  follow the letters from a node; \<open>Inl ch\<close> is the first letter that has no child.
  \<^verbatim>\<open>isWordValid\<close> returns false at such a letter and true after the loop.
\<close>

fun descend :: "trie \<Rightarrow> string \<Rightarrow> char + trie" where
  "descend t [] = Inr t"
| "descend t (ch # rest) =
     (case lookup t ch of None \<Rightarrow> Inl ch | Some next \<Rightarrow> descend next rest)"

definition isWordValid :: "trie \<Rightarrow> string \<Rightarrow> bool" where
  "isWordValid t word = (case descend t word of Inl _ \<Rightarrow> False | Inr _ \<Rightarrow> True)"

subsection \<open>Building the trie (\<^verbatim>\<open>loadWords\<close>)\<close>

text \<open>
  \<^verbatim>\<open>strings.ToUpper\<close> on ASCII text: the 26 small letters go to their capitals, every
  other character stays. \<open>filtered\<close> is the string of
  \<^verbatim>\<open>strings.ContainsAny(word, "1234567890-'.!@#$%^&*()")\<close>.
\<close>

definition toUpper :: "char \<Rightarrow> char" where
  "toUpper c =
     (case map_of (zip ''abcdefghijklmnopqrstuvwxyz'' ''ABCDEFGHIJKLMNOPQRSTUVWXYZ'') c of
        None \<Rightarrow> c | Some u \<Rightarrow> u)"

definition filtered :: string where
  "filtered = ''1234567890-'' @ [CHR 0x27] @ ''.!@#$%^&*()''"

definition containsAny :: "string \<Rightarrow> string \<Rightarrow> bool" where
  "containsAny s chars = list_ex (\<lambda>c. c \<in> set chars) s"

text \<open>
  The inner loop of \<^verbatim>\<open>loadWords\<close> on the runes still to insert: \<open>i\<close> is the position
  of the next rune and \<open>n\<close> is \<^verbatim>\<open>len(word)\<close>. A missing child is created with
  \<^verbatim>\<open>complete: i == len(word)-1\<close> and no children; a child that is found is entered as
  it is. \<open>addWord\<close> is one round of the scanner loop: a line with a filtered character
  is skipped. The file is either unreadable (\<open>None\<close>, the error of \<^verbatim>\<open>os.Open\<close>) or a
  sequence of lines.
\<close>

fun insertRunes :: "int \<Rightarrow> int \<Rightarrow> string \<Rightarrow> trie \<Rightarrow> trie" where
  "insertRunes i n [] t = t"
| "insertRunes i n (r # rs) t =
     (case lookup t r of
        None \<Rightarrow> Trie (complete t)
                 (store r (insertRunes (i + 1) n rs (Trie (i = n - 1) [])) (children t))
      | Some nextTrie \<Rightarrow> Trie (complete t)
                 (store r (insertRunes (i + 1) n rs nextTrie) (children t)))"

definition addWord :: "trie \<Rightarrow> string \<Rightarrow> trie" where
  "addWord baseTrie word =
     (if containsAny word filtered then baseTrie
      else insertRunes 0 (int (length word)) (map toUpper word) baseTrie)"

definition loadWords :: "string list option \<Rightarrow> trie option" where
  "loadWords file =
     (case file of None \<Rightarrow> None | Some lines \<Rightarrow> Some (foldl addWord (Trie False []) lines))"

subsection \<open>Enumerating words (\<^verbatim>\<open>sortedChildren\<close>, \<^verbatim>\<open>allValidWords\<close>)\<close>

text \<open>
  \<^verbatim>\<open>sortedChildren\<close> sorts the keys of the map, one-rune strings, with
  \<^verbatim>\<open>sort.Strings\<close>: by character code. The closure \<^verbatim>\<open>helper\<close> of \<^verbatim>\<open>allValidWords\<close> visits the sorted keys;
  a child without children gives its letter alone, any other child gives its letter if
  it is complete, and then its letter before every word of its own subtree.
\<close>

definition sortedChildren :: "trie \<Rightarrow> char list" where
  "sortedChildren t = sort_key (of_char :: char \<Rightarrow> nat) (remdups (map fst (children t)))"

lemma size_map_of:
  "map_of kvs k = Some v \<Longrightarrow> size v < Suc (size_list (size_prod (\<lambda>_. 0) size) kvs)"
  by (induction kvs) (auto split: if_splits)

lemma size_lookup: "lookup t ch = Some next \<Longrightarrow> size next < size t"
  by (cases t) (auto simp: lookup_def dest: size_map_of)

function allValidWords_helper :: "trie \<Rightarrow> string list" where
  "allValidWords_helper cur =
     concat (map (\<lambda>ch.
        case lookup cur ch of
          None \<Rightarrow> []
        | Some next \<Rightarrow>
            if children next = [] then [[ch]]
            else (if complete next then [[ch]] else [])
                 @ map (\<lambda>w. ch # w) (allValidWords_helper next))
       (sortedChildren cur))"
  by pat_completeness auto
termination
  by (relation "measure size") (auto dest: size_lookup)

definition allValidWords :: "trie \<Rightarrow> string \<Rightarrow> string list" where
  "allValidWords t pre =
     (case descend t pre of
        Inl _ \<Rightarrow> []
      | Inr cur \<Rightarrow> map (\<lambda>w. pre @ w) (allValidWords_helper cur))"

subsection \<open>The trie browser (\<^verbatim>\<open>explore\<close>)\<close>

text \<open>
  The result is the pair that \<^verbatim>\<open>explore\<close> returns (the new prefix and the error, if
  any) and, third, the words it prints, at most ten.
\<close>

datatype explore_error = NotInDictionary string char

definition explore :: "trie \<Rightarrow> string \<Rightarrow> string \<Rightarrow> string \<times> explore_error option \<times> string list" where
  "explore t text currWord =
     (if text = ''.reset'' then ([], None, [])
      else if text = ''.valid'' then (currWord, None, take 10 (allValidWords t currWord))
      else
        let newWord = map toUpper (currWord @ text) in
        case descend t newWord of
          Inl ch \<Rightarrow> (currWord, Some (NotInDictionary newWord ch), [])
        | Inr currTrie \<Rightarrow>
            if map fst (children currTrie) = [] then ([], None, [])
            else (newWord, None, take 10 (allValidWords t newWord)))"

subsection \<open>The side rule (\<^verbatim>\<open>validWordHelper\<close>, \<^verbatim>\<open>validWords\<close>, \<^verbatim>\<open>validWordsStartingWith\<close>)\<close>

text \<open>
  \<^verbatim>\<open>validWordHelper\<close> on a node that is not nil: the sides are visited with their
  indices, the side \<^verbatim>\<open>lastActiveGroup\<close> is skipped, and for every letter of a side
  that has a child, the word so far is recorded when the child is complete and
  \<^verbatim>\<open>len(letters) >= 2\<close>, before the words of the recursive call are appended. The
  recursion only enters children that were found, so it never meets a nil node.
\<close>

function validWordHelper :: "trie \<Rightarrow> string \<Rightarrow> string list \<Rightarrow> int \<Rightarrow> string list" where
  "validWordHelper currTrie letters groupings lastActiveGroup =
     concat (map (\<lambda>(i, grp).
        if int i = lastActiveGroup then []
        else concat (map (\<lambda>ch.
               case lookup currTrie ch of
                 None \<Rightarrow> []
               | Some next \<Rightarrow>
                   (if complete next \<and> 2 \<le> length letters then [letters @ [ch]] else [])
                   @ validWordHelper next (letters @ [ch]) groupings (int i))
             grp))
       (enumerate 0 groupings))"
  by pat_completeness auto
termination
  by (relation "measure (\<lambda>(t, _, _, _). size t)") (auto dest: size_lookup)

declare validWordHelper.simps [simp del]

text \<open>
  The call of \<^verbatim>\<open>validWordHelper\<close> on a pointer that may be nil, as
  \<^verbatim>\<open>validWordsStartingWith\<close> makes it with \<^verbatim>\<open>dictionary.children[ch]\<close>. On nil the
  first \<^verbatim>\<open>currTrie.children[ch]\<close> panics; it is reached when some side other than
  \<^verbatim>\<open>lastActiveGroup\<close> has a letter.
\<close>

definition validWordHelper_ptr :: "trie option \<Rightarrow> string \<Rightarrow> string list \<Rightarrow> int \<Rightarrow> abort + string list" where
  "validWordHelper_ptr p letters groupings lastActiveGroup =
     (case p of
        Some currTrie \<Rightarrow> Inr (validWordHelper currTrie letters groupings lastActiveGroup)
      | None \<Rightarrow>
          if list_ex (\<lambda>(i, grp). int i \<noteq> lastActiveGroup \<and> grp \<noteq> []) (enumerate 0 groupings)
          then Inl NilDereference else Inr [])"

definition validWords :: "trie \<Rightarrow> string list \<Rightarrow> string list" where
  "validWords dictionary groupings = validWordHelper dictionary [] groupings (- 1)"

text \<open>
  \<open>contains\<close> is \<^verbatim>\<open>strings.Contains\<close>; \<open>findGroup\<close> is the loop that looks for the first
  side containing the prefix, \<open>-1\<close> when there is none. \<^verbatim>\<open>validWordsStartingWith\<close>
  first reads \<^verbatim>\<open>[]rune(prefix)[0]\<close>, which panics on the empty string; with no side
  found it calls \<^verbatim>\<open>log.Fatalf\<close>.
\<close>

fun contains :: "string \<Rightarrow> string \<Rightarrow> bool" where
  "contains [] substr = (substr = [])"
| "contains (c # s) substr = (take (length substr) (c # s) = substr \<or> contains s substr)"

fun findGroup :: "string list \<Rightarrow> string \<Rightarrow> nat \<Rightarrow> int" where
  "findGroup [] pfx i = - 1"
| "findGroup (grp # rest) pfx i =
     (if contains grp pfx then int i else findGroup rest pfx (Suc i))"

definition validWordsStartingWith :: "trie \<Rightarrow> string list \<Rightarrow> string \<Rightarrow> abort + string list" where
  "validWordsStartingWith dictionary groupings pfx =
     (case pfx of
        [] \<Rightarrow> Inl IndexOutOfRange
      | ch # _ \<Rightarrow>
          let activeGroup = findGroup groupings pfx 0 in
          if activeGroup = - 1 then Inl FatalExit
          else validWordHelper_ptr (lookup dictionary ch) pfx groupings activeGroup)"

subsection \<open>Coverage (\<^verbatim>\<open>isGameComplete\<close>)\<close>

text \<open>
  The map \<^verbatim>\<open>letters\<close> only ever stores the value 1, so it is the list of its keys,
  without repetition; \<^verbatim>\<open>len(letters)\<close> is the length of that list. \<open>scanWord\<close> is
  the inner loop over one word: \<open>None\<close> when it returns true from inside, otherwise the
  keys after the word. \<open>scanWords\<close> is the outer loop and the final test.
\<close>

fun scanWord :: "char list \<Rightarrow> string \<Rightarrow> char list option" where
  "scanWord letters [] = Some letters"
| "scanWord letters (ch # w) =
     (let letters' = List.insert ch letters
      in if length letters' = 12 then None else scanWord letters' w)"

fun scanWords :: "char list \<Rightarrow> string list \<Rightarrow> bool" where
  "scanWords letters [] = (length letters = 12)"
| "scanWords letters (w # ws) =
     (case scanWord letters w of None \<Rightarrow> True | Some letters' \<Rightarrow> scanWords letters' ws)"

definition isGameComplete :: "string list \<Rightarrow> bool" where
  "isGameComplete words = scanWords [] words"

subsection \<open>Counting the three-word chains (\<^verbatim>\<open>numberOfSolutions\<close>)\<close>

text \<open>
  The closure \<^verbatim>\<open>helper\<close> calls \<^verbatim>\<open>validWordsStartingWith\<close> before it looks at the
  length of the chain, and recurses on every next word that is not in the chain. That
  it returns rests on the next words being words of \<^verbatim>\<open>validWords\<close>, of which only
  finitely many are outside the chain; the facts about \<^verbatim>\<open>validWordHelper\<close> needed for
  this come first (\<open>step_words\<close> is what one letter of one side contributes).
\<close>

definition step_words :: "trie \<Rightarrow> string \<Rightarrow> string list \<Rightarrow> nat \<Rightarrow> char \<Rightarrow> string set" where
  "step_words t l g i ch =
     (case lookup t ch of
        None \<Rightarrow> {}
      | Some next \<Rightarrow> (if complete next \<and> 2 \<le> length l then {l @ [ch]} else {})
                      \<union> set (validWordHelper next (l @ [ch]) g (int i)))"

lemma validWordHelper_set:
  "set (validWordHelper t l g a) =
     (\<Union>i\<in>{i. i < length g \<and> int i \<noteq> a}. \<Union>ch\<in>set (g ! i). step_words t l g i ch)"
proof -
  have enum: "set (enumerate 0 g) = (\<lambda>i. (i, g ! i)) ` {i. i < length g}"
    by (auto simp: in_set_enumerate_eq)
  have inner: "set (case lookup t ch of None \<Rightarrow> []
        | Some next \<Rightarrow> (if complete next \<and> 2 \<le> length l then [l @ [ch]] else [])
             @ validWordHelper next (l @ [ch]) g (int i)) = step_words t l g i ch" for i ch
    by (auto simp: step_words_def split: option.splits)
  have "set (validWordHelper t l g a) =
     (\<Union>i\<in>{i. i < length g}. if int i = a then {} else (\<Union>ch\<in>set (g ! i). step_words t l g i ch))"
    by (subst validWordHelper.simps)
       (simp add: enum inner if_distrib[of set] cong: if_cong)
  also have "\<dots> = (\<Union>i\<in>{i. i < length g \<and> int i \<noteq> a}. \<Union>ch\<in>set (g ! i). step_words t l g i ch)"
    by (auto split: if_splits)
  finally show ?thesis .
qed

lemma step_words_mem:
  "w \<in> step_words t l g i ch \<longleftrightarrow>
     (\<exists>next. lookup t ch = Some next \<and>
        ((complete next \<and> 2 \<le> length l \<and> w = l @ [ch])
         \<or> w \<in> set (validWordHelper next (l @ [ch]) g (int i))))"
  by (cases "lookup t ch") (auto simp: step_words_def)

lemma validWordHelper_mem:
  "w \<in> set (validWordHelper t l g a) \<longleftrightarrow>
     (\<exists>i<length g. int i \<noteq> a \<and> (\<exists>ch\<in>set (g ! i). \<exists>next. lookup t ch = Some next \<and>
        ((complete next \<and> 2 \<le> length l \<and> w = l @ [ch])
         \<or> w \<in> set (validWordHelper next (l @ [ch]) g (int i)))))"
  by (subst validWordHelper_set) (auto simp: step_words_mem)

lemma contains_single: "contains s [c] \<longleftrightarrow> c \<in> set s"
  by (induction s) auto

lemma findGroup_found:
  "findGroup g p k \<noteq> - 1 \<Longrightarrow>
     \<exists>j<length g. findGroup g p k = int (k + j) \<and> contains (g ! j) p \<and> (\<forall>j'<j. \<not> contains (g ! j') p)"
proof (induction g arbitrary: k)
  case Nil
  then show ?case by simp
next
  case (Cons s g)
  show ?case
  proof (cases "contains s p")
    case True
    then show ?thesis by (intro exI[of _ 0]) simp
  next
    case False
    with Cons.prems have "findGroup g p (Suc k) \<noteq> - 1" by simp
    from Cons.IH[OF this] obtain j where j: "j < length g" "findGroup g p (Suc k) = int (Suc k + j)"
      "contains (g ! j) p" "\<forall>j'<j. \<not> contains (g ! j') p" by blast
    show ?thesis
    proof (intro exI[of _ "Suc j"] conjI allI impI)
      fix j' assume "j' < Suc j"
      then show "\<not> contains ((s # g) ! j') p" using False j(4) by (cases j') auto
    qed (use j False in auto)
  qed
qed

lemma findGroup_none: "findGroup g p k = - 1 \<longleftrightarrow> (\<forall>s\<in>set g. \<not> contains s p)"
  by (induction g arbitrary: k) auto

lemma validWordsStartingWith_subset:
  assumes "validWordsStartingWith d g [c] = Inr ws"
  shows "set ws \<subseteq> set (validWords d g)"
proof
  fix w assume w: "w \<in> set ws"
  from assms have ne: "findGroup g [c] 0 \<noteq> - 1"
    by (auto simp: validWordsStartingWith_def Let_def split: if_splits)
  from findGroup_found[OF this] obtain j where j: "j < length g" "findGroup g [c] 0 = int j"
    "contains (g ! j) [c]" by auto
  from assms ne j have p: "validWordHelper_ptr (lookup d c) [c] g (int j) = Inr ws"
    by (simp add: validWordsStartingWith_def Let_def)
  show "w \<in> set (validWords d g)"
  proof (cases "lookup d c")
    case None
    with p w show ?thesis by (auto simp: validWordHelper_ptr_def split: if_splits)
  next
    case (Some n)
    with p w have "w \<in> set (validWordHelper n ([] @ [c]) g (int j))"
      by (auto simp: validWordHelper_ptr_def)
    with Some j show ?thesis
      unfolding validWords_def
      by (subst validWordHelper_mem) (auto simp: contains_single intro!: exI[of _ j])
  qed
qed

text \<open>
  \<open>sumLoop\<close> is a loop \<^verbatim>\<open>for _, x := range xs { acc += f(x) }\<close> in which a call may end
  the process. The sum is a Go \<^verbatim>\<open>int\<close>, 64 bits wide on a 64-bit platform, and wraps
  around. In \<open>helper\<close> the words already in the chain are
  skipped by \<^verbatim>\<open>continue\<close>: the loop runs over the others.
\<close>

fun sumLoop :: "('a \<Rightarrow> abort + 64 word) \<Rightarrow> 'a list \<Rightarrow> 64 word \<Rightarrow> abort + 64 word" where
  "sumLoop f [] acc = Inr acc"
| "sumLoop f (x # xs) acc = (case f x of Inl e \<Rightarrow> Inl e | Inr n \<Rightarrow> sumLoop f xs (acc + n))"

lemma sumLoop_cong [fundef_cong]:
  "xs = ys \<Longrightarrow> acc = acc' \<Longrightarrow> (\<And>x. x \<in> set ys \<Longrightarrow> f x = g x) \<Longrightarrow> sumLoop f xs acc = sumLoop g ys acc'"
  by (induction ys arbitrary: xs acc acc') (auto split: sum.splits)

function helper :: "trie \<Rightarrow> string list \<Rightarrow> string list \<Rightarrow> abort + 64 word" where
  "helper dictionary groupings words =
     (if words = [] then Inl IndexOutOfRange
      else
        let lastWord = last words in
        if lastWord = [] then Inl IndexOutOfRange
        else
          let lastLetter = [last lastWord] in
          case validWordsStartingWith dictionary groupings lastLetter of
            Inl e \<Rightarrow> Inl e
          | Inr nextWords \<Rightarrow>
              if length words = 3 then (if isGameComplete words then Inr 1 else Inr 0)
              else sumLoop (\<lambda>next. helper dictionary groupings (words @ [next]))
                     (filter (\<lambda>next. next \<notin> set words) nextWords) 0)"
  by pat_completeness auto
termination
proof (relation "measure (\<lambda>(d, g, words). card (set (validWords d g) - set words))", goal_cases)
  case 1
  show ?case by simp
next
  case (2 d g words lastWord lastLetter nextWords nw)
  then have "validWordsStartingWith d g [last (last words)] = Inr nextWords"
    and nx: "nw \<in> set nextWords" "nw \<notin> set words" by auto
  from validWordsStartingWith_subset[OF this(1)] nx have "nw \<in> set (validWords d g) - set words"
    by auto
  then have "card ((set (validWords d g) - set words) - {nw}) < card (set (validWords d g) - set words)"
    by (intro card_Diff1_less) auto
  moreover have "set (validWords d g) - set (words @ [nw]) = (set (validWords d g) - set words) - {nw}"
    by auto
  ultimately show ?case
    by simp
qed

declare helper.simps [simp del]

text \<open>
  The order \<^verbatim>\<open>byLengthThenAlphabetically\<close>: longer words first, words of one length by
  the bytes (\<open>strLess\<close> is \<^verbatim>\<open>x < y\<close> on strings). \<^verbatim>\<open>sort.Slice\<close> is modelled by an
  insertion sort; the order is total on strings, so every sorting algorithm gives the
  same list (\<open>sortSlice_unique\<close> below). \<open>countFrom\<close> is the outer loop of
  \<^verbatim>\<open>numberOfSolutions\<close> over a given list of starting words.
\<close>

fun strLess :: "string \<Rightarrow> string \<Rightarrow> bool" where
  "strLess [] [] = False"
| "strLess [] (y # ys) = True"
| "strLess (x # xs) [] = False"
| "strLess (x # xs) (y # ys) =
     ((of_char x :: nat) < of_char y \<or> (x = y \<and> strLess xs ys))"

definition byLengthThenAlphabetically :: "string \<Rightarrow> string \<Rightarrow> bool" where
  "byLengthThenAlphabetically x y =
     (let deltaLength = int (length x) - int (length y)
      in deltaLength > 0 \<or> (deltaLength = 0 \<and> strLess x y))"

fun insertBy :: "('a \<Rightarrow> 'a \<Rightarrow> bool) \<Rightarrow> 'a \<Rightarrow> 'a list \<Rightarrow> 'a list" where
  "insertBy lt x [] = [x]"
| "insertBy lt x (y # ys) = (if lt y x then y # insertBy lt x ys else x # y # ys)"

definition sortSlice :: "('a \<Rightarrow> 'a \<Rightarrow> bool) \<Rightarrow> 'a list \<Rightarrow> 'a list" where
  "sortSlice lt xs = foldr (insertBy lt) xs []"

definition countFrom :: "trie \<Rightarrow> string list \<Rightarrow> string list \<Rightarrow> abort + 64 word" where
  "countFrom dictionary groupings words = sumLoop (\<lambda>w. helper dictionary groupings [w]) words 0"

definition numberOfSolutions :: "trie \<Rightarrow> string list \<Rightarrow> abort + 64 word" where
  "numberOfSolutions dictionary groupings =
     countFrom dictionary groupings (sortSlice byLengthThenAlphabetically (validWords dictionary groupings))"

section \<open>The words of the specification\<close>

text \<open>
  A box layout: four sides of three letters, the twelve letters pairwise distinct (what
  \<^verbatim>\<open>validateFlags\<close> accepts).
\<close>

definition boxLayout :: "string list \<Rightarrow> bool" where
  "boxLayout groupings =
     (length groupings = 4 \<and> list_all (\<lambda>s. length s = 3) groupings \<and> distinct (concat groupings))"

text \<open>
  Two letters are on the same side when one side holds both; a word obeys the side rule
  when no two consecutive letters are on the same side. \<open>onSide g a c\<close>: the letter
  lies on the side with index \<open>a\<close> (never, for the index \<open>-1\<close>). \<open>isTerminal t w\<close>:
  the letters of \<open>w\<close> lead from \<open>t\<close> to a node marked complete.
\<close>

definition sameSide :: "string list \<Rightarrow> char \<Rightarrow> char \<Rightarrow> bool" where
  "sameSide groupings x y = list_ex (\<lambda>s. x \<in> set s \<and> y \<in> set s) groupings"

fun sideRule :: "string list \<Rightarrow> string \<Rightarrow> bool" where
  "sideRule groupings (x # y # rest) = (\<not> sameSide groupings x y \<and> sideRule groupings (y # rest))"
| "sideRule groupings _ = True"

definition onSide :: "string list \<Rightarrow> int \<Rightarrow> char \<Rightarrow> bool" where
  "onSide groupings a c = (0 \<le> a \<and> nat a < length groupings \<and> c \<in> set (groupings ! nat a))"

definition isTerminal :: "trie \<Rightarrow> string \<Rightarrow> bool" where
  "isTerminal t w = (case descend t w of Inl _ \<Rightarrow> False | Inr n \<Rightarrow> complete n)"

text \<open>
  A box word is a dictionary word written with letters of the box that obeys the side
  rule. A chain is a list of words in which every word starts with the last letter of
  the word before. A solution is a chain of exactly three valid words, no word twice,
  whose letters are the letters of the box. \<open>boxValid\<close> is what the code takes for
  valid: a box word of at least three letters. \<open>followers\<close> are the valid words that
  may extend a chain.
\<close>

definition boxWord :: "trie \<Rightarrow> string list \<Rightarrow> string \<Rightarrow> bool" where
  "boxWord d g w = (isTerminal d w \<and> set w \<subseteq> set (concat g) \<and> sideRule g w)"

definition boxValid :: "trie \<Rightarrow> string list \<Rightarrow> string \<Rightarrow> bool" where
  "boxValid d g w = (3 \<le> length w \<and> boxWord d g w)"

fun chained :: "string list \<Rightarrow> bool" where
  "chained (x # y # rest) = (x \<noteq> [] \<and> y \<noteq> [] \<and> hd y = last x \<and> chained (y # rest))"
| "chained _ = True"

definition isSolution :: "(string \<Rightarrow> bool) \<Rightarrow> string list \<Rightarrow> string list \<Rightarrow> bool" where
  "isSolution valid g chain =
     (length chain = 3 \<and> list_all valid chain \<and> chained chain \<and> distinct chain
      \<and> set (concat chain) = set (concat g))"

definition followers :: "trie \<Rightarrow> string list \<Rightarrow> string list \<Rightarrow> string set" where
  "followers d g words = {w. boxValid d g w \<and> hd w = last (last words) \<and> w \<notin> set words}"

subsection \<open>Two dictionaries on the box ABC, DEF, GHI, JKL\<close>

text \<open>
  \<open>fixtureTrie\<close> holds ADGJBEH, HKA, AFCIL and LA; \<open>shortWordTrie\<close> holds ADGJBEH, HK,
  KCFIL and LA. Both are what \<^verbatim>\<open>loadWords\<close> builds from these lines.
\<close>

definition fixtureBox :: "string list" where
  "fixtureBox = [''ABC'', ''DEF'', ''GHI'', ''JKL'']"

definition fixtureTrie :: trie where
  "fixtureTrie = Trie False
     [(CHR ''A'', Trie False
        [(CHR ''D'', Trie False [(CHR ''G'', Trie False [(CHR ''J'', Trie False [(CHR ''B'',
            Trie False [(CHR ''E'', Trie False [(CHR ''H'', Trie True [])])])])])]),
         (CHR ''F'', Trie False [(CHR ''C'', Trie False [(CHR ''I'', Trie False [(CHR ''L'',
            Trie True [])])])])]),
      (CHR ''H'', Trie False [(CHR ''K'', Trie False [(CHR ''A'', Trie True [])])]),
      (CHR ''L'', Trie False [(CHR ''A'', Trie True [])])]"

definition shortWordTrie :: trie where
  "shortWordTrie = Trie False
     [(CHR ''A'', Trie False
        [(CHR ''D'', Trie False [(CHR ''G'', Trie False [(CHR ''J'', Trie False [(CHR ''B'',
            Trie False [(CHR ''E'', Trie False [(CHR ''H'', Trie True [])])])])])])]),
      (CHR ''H'', Trie False [(CHR ''K'', Trie True [])]),
      (CHR ''K'', Trie False [(CHR ''C'', Trie False [(CHR ''F'', Trie False [(CHR ''I'',
            Trie False [(CHR ''L'', Trie True [])])])])]),
      (CHR ''L'', Trie False [(CHR ''A'', Trie True [])])]"

section \<open>Properties\<close>

subsection \<open>The walk and the word test\<close>

lemma isWordValid_iff_path: "isWordValid t w \<longleftrightarrow> (\<exists>n. descend t w = Inr n)"
  by (auto simp: isWordValid_def split: sum.splits)

text \<open>
  C3. The specification says that \<^verbatim>\<open>isWordValid\<close> holds exactly when the letters lead
  from the root to a node marked complete. The function ends in \<^verbatim>\<open>return true\<close> and
  never reads \<open>complete\<close>: in the trie built from the one word CAT it accepts CA,
  whose node is not complete.
\<close>

theorem isWordValid_accepts_prefix:
  "loadWords (Some [''CAT'']) =
     Some (Trie False [(CHR ''C'', Trie False [(CHR ''A'', Trie False [(CHR ''T'', Trie True [])])])])
   \<and> isWordValid (Trie False [(CHR ''C'', Trie False [(CHR ''A'', Trie False [(CHR ''T'', Trie True [])])])]) ''CA''
   \<and> descend (Trie False [(CHR ''C'', Trie False [(CHR ''A'', Trie False [(CHR ''T'', Trie True [])])])]) ''CA''
       = Inr (Trie False [(CHR ''T'', Trie True [])])"
  by (simp add: loadWords_def addWord_def containsAny_def filtered_def toUpper_def lookup_def
        isWordValid_def)

text \<open>
  C4. The specification says that building the trie and listing it with the empty prefix
  gives back every accepted word, whatever the order of the lines. \<^verbatim>\<open>loadWords\<close> sets
  \<open>complete\<close> only on a node it creates: when CATS comes before CAT, the node of T
  exists already, stays incomplete, and CAT is missing from the listing.
\<close>

theorem loadWords_misses_word_after_extension:
  "loadWords (Some [''CATS'', ''CAT'']) =
     Some (Trie False [(CHR ''C'', Trie False [(CHR ''A'', Trie False [(CHR ''T'',
            Trie False [(CHR ''S'', Trie True [])])])])])
   \<and> allValidWords (Trie False [(CHR ''C'', Trie False [(CHR ''A'', Trie False [(CHR ''T'',
            Trie False [(CHR ''S'', Trie True [])])])])]) [] = [''CATS'']
   \<and> descend (Trie False [(CHR ''C'', Trie False [(CHR ''A'', Trie False [(CHR ''T'',
            Trie False [(CHR ''S'', Trie True [])])])])]) ''CAT''
       = Inr (Trie False [(CHR ''S'', Trie True [])])"
  by (simp add: loadWords_def addWord_def containsAny_def filtered_def toUpper_def lookup_def
        allValidWords_def sortedChildren_def)

subsection \<open>Words starting with a letter: the two ways out of the process\<close>

lemma findGroup_single: "findGroup g [c] k = - 1 \<longleftrightarrow> c \<notin> set (concat g)"
  by (simp add: findGroup_none contains_single)

text \<open>
  C5. The specification says that a letter that lies on no side is reported to the caller
  as an error value, the process staying alive. \<^verbatim>\<open>validWordsStartingWith\<close> returns a
  list only and calls \<^verbatim>\<open>log.Fatalf\<close> for such a letter: the process exits, for every
  trie and every box.
\<close>

theorem validWordsStartingWith_unknown_letter_exits:
  "c \<notin> set (concat g) \<Longrightarrow> validWordsStartingWith d g [c] = Inl FatalExit"
  by (simp add: validWordsStartingWith_def findGroup_single)

theorem validWordsStartingWith_unknown_letter_exits_witness:
  "CHR ''Q'' \<notin> set (concat [''ABC'', ''DEF'', ''GHI'', ''JKL''])
   \<and> validWordsStartingWith (Trie False []) [''ABC'', ''DEF'', ''GHI'', ''JKL''] ''Q'' = Inl FatalExit"
  using validWordsStartingWith_unknown_letter_exits
    [of "CHR ''Q''" "[''ABC'', ''DEF'', ''GHI'', ''JKL'']" "Trie False []"]
  by simp

theorem validWordsStartingWith_exit_example:
  "validWordsStartingWith (Trie False [(CHR ''Z'', Trie False [(CHR ''A'', Trie True [])])])
     [''ABC'', ''DEF'', ''GHI'', ''JKL''] ''Z'' = Inl FatalExit"
  by (simp add: validWordsStartingWith_def)

lemma validWordHelper_ptr_nil:
  assumes "j < length g" "int j \<noteq> a" "g ! j \<noteq> []"
  shows "validWordHelper_ptr None l g a = Inl NilDereference"
proof -
  have "(j, g ! j) \<in> set (enumerate 0 g)"
    using assms(1) by (simp add: in_set_enumerate_eq)
  then have "list_ex (\<lambda>(i, grp). int i \<noteq> a \<and> grp \<noteq> []) (enumerate 0 g)"
    unfolding list_ex_iff using assms by (intro bexI[of _ "(j, g ! j)"]) auto
  then show ?thesis
    by (simp add: validWordHelper_ptr_def)
qed

lemma startingWith_nil:
  assumes "boxLayout g" "c \<in> set (concat g)" "lookup d c = None"
  shows "validWordsStartingWith d g [c] = Inl NilDereference"
proof -
  from assms(2) have ne: "findGroup g [c] 0 \<noteq> - 1"
    by (simp add: findGroup_single)
  from findGroup_found[OF ne] obtain j where j: "j < length g" "findGroup g [c] 0 = int j"
    by auto
  from assms(1) have len: "length g = 4" and three: "\<forall>s\<in>set g. length s = 3"
    by (auto simp: boxLayout_def list_all_iff)
  obtain k where k: "k < length g" "k \<noteq> j"
    using len j(1) by (cases "j = 0") (auto intro: that[of 1] that[of 0])
  with three have "g ! k \<noteq> []"
    by (metis length_0_conv nth_mem zero_neq_numeral)
  with k have "validWordHelper_ptr None [c] g (int j) = Inl NilDereference"
    by (intro validWordHelper_ptr_nil[of k]) auto
  with ne j assms(3) show ?thesis
    by (simp add: validWordsStartingWith_def Let_def)
qed

text \<open>
  C9. When the letter lies on a side of the box but no dictionary word starts with it,
  \<^verbatim>\<open>dictionary.children[ch]\<close> is nil, and the first \<^verbatim>\<open>currTrie.children[ch]\<close> of
  \<^verbatim>\<open>validWordHelper\<close> dereferences it: the call panics.
\<close>

theorem validWordsStartingWith_nil_dereference:
  assumes "boxLayout g" "c \<in> set (concat g)" "lookup d c = None"
  shows "validWordsStartingWith d g [c] = Inl NilDereference"
  using assms by (rule startingWith_nil)

theorem validWordsStartingWith_nil_dereference_witness:
  "boxLayout [''ABC'', ''DEF'', ''GHI'', ''JKL'']
   \<and> CHR ''G'' \<in> set (concat [''ABC'', ''DEF'', ''GHI'', ''JKL''])
   \<and> lookup (Trie False [(CHR ''A'', Trie False [(CHR ''D'', Trie False [(CHR ''G'', Trie True [])])])])
        (CHR ''G'') = None
   \<and> validWordsStartingWith
        (Trie False [(CHR ''A'', Trie False [(CHR ''D'', Trie False [(CHR ''G'', Trie True [])])])])
        [''ABC'', ''DEF'', ''GHI'', ''JKL''] ''G'' = Inl NilDereference"
  using validWordsStartingWith_nil_dereference [of "[''ABC'', ''DEF'', ''GHI'', ''JKL'']" "CHR ''G''"
      "Trie False [(CHR ''A'', Trie False [(CHR ''D'', Trie False [(CHR ''G'', Trie True [])])])]"]
  by (simp add: boxLayout_def lookup_def)

subsection \<open>Words of the side rule are at least three letters long\<close>

lemma validWordHelper_shape:
  "w \<in> set (validWordHelper t l g a) \<Longrightarrow> \<exists>ext. ext \<noteq> [] \<and> w = l @ ext \<and> 3 \<le> length w"
proof (induction t l g a arbitrary: w rule: validWordHelper.induct)
  case (1 t l g a)
  from "1.prems" obtain i ch nx where i: "i < length g" "int i \<noteq> a" "ch \<in> set (g ! i)"
    and nx: "lookup t ch = Some nx"
    and w: "(complete nx \<and> 2 \<le> length l \<and> w = l @ [ch]) \<or> w \<in> set (validWordHelper nx (l @ [ch]) g (int i))"
    by (subst (asm) validWordHelper_mem) blast
  from w show ?case
  proof
    assume "complete nx \<and> 2 \<le> length l \<and> w = l @ [ch]"
    then show ?thesis by auto
  next
    assume "w \<in> set (validWordHelper nx (l @ [ch]) g (int i))"
    moreover have "(i, g ! i) \<in> set (enumerate 0 g)" using i(1) by (simp add: in_set_enumerate_eq)
    ultimately obtain ext where "ext \<noteq> []" "w = (l @ [ch]) @ ext" "3 \<le> length w"
      using "1.IH"[of "(i, g ! i)" i "g ! i" ch nx w] i nx by auto
    then show ?thesis by (intro exI[of _ "ch # ext"]) auto
  qed
qed

text \<open>
  C10. Every word that \<^verbatim>\<open>validWords\<close> returns, and every word that
  \<^verbatim>\<open>validWordsStartingWith\<close> returns for a one-letter prefix, has at least three letters:
  a word is recorded only when two letters are accumulated already.
\<close>

theorem valid_words_length_ge_3:
  "(w \<in> set (validWords d g) \<longrightarrow> 3 \<le> length w)
   \<and> (validWordsStartingWith d g [c] = Inr ws \<longrightarrow> w \<in> set ws \<longrightarrow> 3 \<le> length w)"
proof (intro conjI impI)
  assume "w \<in> set (validWords d g)"
  then show "3 \<le> length w"
    unfolding validWords_def by (blast dest: validWordHelper_shape)
next
  assume "validWordsStartingWith d g [c] = Inr ws" "w \<in> set ws"
  from validWordsStartingWith_subset[OF this(1)] this(2) have "w \<in> set (validWords d g)"
    by auto
  then show "3 \<le> length w"
    unfolding validWords_def by (blast dest: validWordHelper_shape)
qed

lemma validWords_ADG:
  "validWords (Trie False [(CHR ''A'', Trie False [(CHR ''D'', Trie False [(CHR ''G'', Trie True [])])])])
     [''ABC'', ''DEF'', ''GHI'', ''JKL''] = [''ADG'']"
  by code_simp

lemma validWordsStartingWith_ADG:
  "validWordsStartingWith
     (Trie False [(CHR ''A'', Trie False [(CHR ''D'', Trie False [(CHR ''G'', Trie True [])])])])
     [''ABC'', ''DEF'', ''GHI'', ''JKL''] ''A'' = Inr [''ADG'']"
  by code_simp

theorem valid_words_length_ge_3_witness:
  "''ADG'' \<in> set (validWords
       (Trie False [(CHR ''A'', Trie False [(CHR ''D'', Trie False [(CHR ''G'', Trie True [])])])])
       [''ABC'', ''DEF'', ''GHI'', ''JKL''])
   \<and> validWordsStartingWith
       (Trie False [(CHR ''A'', Trie False [(CHR ''D'', Trie False [(CHR ''G'', Trie True [])])])])
       [''ABC'', ''DEF'', ''GHI'', ''JKL''] ''A'' = Inr [''ADG'']
   \<and> 3 \<le> length ''ADG''"
  using valid_words_length_ge_3 [of "''ADG''"
      "Trie False [(CHR ''A'', Trie False [(CHR ''D'', Trie False [(CHR ''G'', Trie True [])])])]"
      "[''ABC'', ''DEF'', ''GHI'', ''JKL'']" "CHR ''A''" "[''ADG'']"]
  by (simp add: validWords_ADG validWordsStartingWith_ADG)

subsection \<open>Coverage\<close>

lemma scanWord_spec:
  "distinct letters \<Longrightarrow> length letters < 12 \<Longrightarrow>
     (case scanWord letters w of
        None \<Rightarrow> 12 \<le> card (set letters \<union> set w)
      | Some l' \<Rightarrow> distinct l' \<and> length l' < 12 \<and> set l' = set letters \<union> set w)"
proof (induction w arbitrary: letters)
  case Nil
  then show ?case by simp
next
  case (Cons ch w)
  let ?l = "List.insert ch letters"
  have d: "distinct ?l" using Cons.prems by simp
  have len: "length ?l \<le> 12" using Cons.prems by (auto simp: List.insert_def)
  show ?case
  proof (cases "length ?l = 12")
    case True
    have "card (set ?l) = 12" using distinct_card[OF d] True by simp
    moreover have "set ?l \<subseteq> set letters \<union> set (ch # w)" by auto
    ultimately have "12 \<le> card (set letters \<union> set (ch # w))"
      by (metis List.finite_set card_mono finite_UnI)
    with True show ?thesis by (simp add: Let_def)
  next
    case False
    with len have "length ?l < 12" by simp
    from Cons.IH[OF d this] False show ?thesis
      by (auto simp: Let_def split: option.splits)
  qed
qed

lemma scanWords_spec:
  "distinct letters \<Longrightarrow> length letters < 12 \<Longrightarrow>
     scanWords letters ws = (12 \<le> card (set letters \<union> set (concat ws)))"
proof (induction ws arbitrary: letters)
  case Nil
  then show ?case by (simp add: distinct_card)
next
  case (Cons w ws)
  show ?case
  proof (cases "scanWord letters w")
    case None
    with scanWord_spec[OF Cons.prems, of w] have "12 \<le> card (set letters \<union> set w)" by simp
    moreover have "set letters \<union> set w \<subseteq> set letters \<union> set (concat (w # ws))" by auto
    ultimately have "12 \<le> card (set letters \<union> set (concat (w # ws)))"
      by (meson List.finite_set card_mono finite_UnI le_trans)
    with None show ?thesis by simp
  next
    case (Some l')
    with scanWord_spec[OF Cons.prems, of w]
    have l': "distinct l'" "length l' < 12" "set l' = set letters \<union> set w" by auto
    from Cons.IH[OF l'(1,2)] Some l'(3) show ?thesis by (simp add: Un_assoc)
  qed
qed

lemma isGameComplete_card: "isGameComplete ws = (12 \<le> card (set (concat ws)))"
  using scanWords_spec[of "[]" ws] by (simp add: isGameComplete_def)

lemma boxLayout_card: "boxLayout g \<Longrightarrow> card (set (concat g)) = 12"
proof -
  assume b: "boxLayout g"
  then have "length (concat g) = 12"
    by (auto simp: boxLayout_def length_concat list_all_iff length_Suc_conv numeral_eq_Suc)
  moreover from b have "distinct (concat g)" by (simp add: boxLayout_def)
  ultimately show ?thesis using distinct_card[of "concat g"] by simp
qed

lemma isGameComplete_covers:
  assumes "boxLayout g" "set (concat ws) \<subseteq> set (concat g)"
  shows "isGameComplete ws = (set (concat ws) = set (concat g))"
proof -
  have c: "card (set (concat g)) = 12" by (rule boxLayout_card[OF assms(1)])
  show ?thesis
  proof
    assume "isGameComplete ws"
    then have "card (set (concat g)) \<le> card (set (concat ws))"
      unfolding isGameComplete_card c .
    with assms(2) show "set (concat ws) = set (concat g)"
      by (intro card_seteq) (simp_all del: set_concat)
  next
    assume "set (concat ws) = set (concat g)"
    then show "isGameComplete ws" unfolding isGameComplete_card using c by (simp del: set_concat)
  qed
qed

text \<open>
  C6. The specification says that \<^verbatim>\<open>isGameComplete\<close> holds exactly when the letters of
  the words are the twelve letters of the box, or, the same, when there are exactly
  twelve of them. The function does not know the box and returns as soon as it has seen
  twelve different letters: it holds exactly when the words have at least twelve
  different letters. For words written with letters of the box this is the same as
  covering the box.
\<close>

theorem isGameComplete_at_least_twelve:
  "isGameComplete ws = (12 \<le> card (set (concat ws)))
   \<and> (boxLayout g \<longrightarrow> set (concat ws) \<subseteq> set (concat g) \<longrightarrow>
        isGameComplete ws = (set (concat ws) = set (concat g)))"
  using isGameComplete_card isGameComplete_covers by blast

theorem isGameComplete_at_least_twelve_witness:
  "boxLayout [''ABC'', ''DEF'', ''GHI'', ''JKL'']
   \<and> set (concat [''ADGJBEH'', ''HKA'', ''ACFIL'']) = set (concat [''ABC'', ''DEF'', ''GHI'', ''JKL''])
   \<and> isGameComplete [''ADGJBEH'', ''HKA'', ''ACFIL'']
   \<and> 12 \<le> card (set (concat [''ADGJBEH'', ''HKA'', ''ACFIL'']))"
proof -
  have b: "boxLayout [''ABC'', ''DEF'', ''GHI'', ''JKL'']"
    by (simp add: boxLayout_def)
  have e: "set (concat [''ADGJBEH'', ''HKA'', ''ACFIL'']) = set (concat [''ABC'', ''DEF'', ''GHI'', ''JKL''])"
    by auto
  from isGameComplete_at_least_twelve
    [of "[''ADGJBEH'', ''HKA'', ''ACFIL'']" "[''ABC'', ''DEF'', ''GHI'', ''JKL'']"] b e
  show ?thesis by blast
qed

theorem isGameComplete_thirteen_letters:
  "boxLayout [''ABC'', ''DEF'', ''GHI'', ''JKL'']
   \<and> isGameComplete [''ABCDEFGHIJKLM'']
   \<and> card (set (concat [''ABCDEFGHIJKLM''])) = 13
   \<and> set (concat [''ABCDEFGHIJKLM'']) \<noteq> set (concat [''ABC'', ''DEF'', ''GHI'', ''JKL''])"
proof -
  have "CHR ''M'' \<in> set (concat [''ABCDEFGHIJKLM''])"
    and "CHR ''M'' \<notin> set (concat [''ABC'', ''DEF'', ''GHI'', ''JKL''])"
    by simp_all
  then have "set (concat [''ABCDEFGHIJKLM'']) \<noteq> set (concat [''ABC'', ''DEF'', ''GHI'', ''JKL''])"
    by blast
  moreover have "boxLayout [''ABC'', ''DEF'', ''GHI'', ''JKL'']"
    by (simp add: boxLayout_def)
  moreover have "isGameComplete [''ABCDEFGHIJKLM'']"
    by (simp add: isGameComplete_def)
  moreover have "card (set (concat [''ABCDEFGHIJKLM''])) = 13"
    by simp
  ultimately show ?thesis by blast
qed

subsection \<open>The trie browser\<close>

text \<open>
  C8. \<^verbatim>\<open>explore\<close>: the token \<^verbatim>\<open>.reset\<close> gives the empty prefix and no error;
  \<^verbatim>\<open>.valid\<close> gives the prefix back unchanged; any other token is appended and the
  whole upper-cased: when the path is not in the trie the result is an error and the old
  prefix, when it ends in a node with no children the result is the empty prefix, and
  otherwise it is the extended prefix, with no error.
\<close>

theorem explore_cases:
  "explore t ''.reset'' currWord = ([], None, [])
   \<and> fst (explore t ''.valid'' currWord) = currWord
   \<and> fst (snd (explore t ''.valid'' currWord)) = None
   \<and> (tok \<noteq> ''.reset'' \<longrightarrow> tok \<noteq> ''.valid'' \<longrightarrow>
        (case descend t (map toUpper (currWord @ tok)) of
           Inl ch \<Rightarrow>
             fst (explore t tok currWord) = currWord
             \<and> fst (snd (explore t tok currWord))
                 = Some (NotInDictionary (map toUpper (currWord @ tok)) ch)
         | Inr n \<Rightarrow>
             if children n = []
             then fst (explore t tok currWord) = [] \<and> fst (snd (explore t tok currWord)) = None
             else fst (explore t tok currWord) = map toUpper (currWord @ tok)
                  \<and> fst (snd (explore t tok currWord)) = None))"
  by (auto simp: explore_def Let_def split: sum.splits)

theorem explore_cases_witness:
  "fst (explore (Trie False [(CHR ''C'', Trie False [(CHR ''A'', Trie False [(CHR ''T'', Trie True [])])])])
          ''a'' ''C'') = ''CA''
   \<and> fst (snd (explore (Trie False [(CHR ''C'', Trie False [(CHR ''A'', Trie False [(CHR ''T'', Trie True [])])])])
          ''a'' ''C'')) = None
   \<and> fst (explore (Trie False [(CHR ''C'', Trie False [(CHR ''A'', Trie False [(CHR ''T'', Trie True [])])])])
          ''t'' ''CA'') = []
   \<and> fst (explore (Trie False [(CHR ''C'', Trie False [(CHR ''A'', Trie False [(CHR ''T'', Trie True [])])])])
          ''x'' ''CA'') = ''CA''
   \<and> fst (snd (explore (Trie False [(CHR ''C'', Trie False [(CHR ''A'', Trie False [(CHR ''T'', Trie True [])])])])
          ''x'' ''CA'')) = Some (NotInDictionary ''CAX'' (CHR ''X''))"
  using
    explore_cases [of "Trie False [(CHR ''C'', Trie False [(CHR ''A'', Trie False [(CHR ''T'', Trie True [])])])]"
      "''C''" "''a''"]
    explore_cases [of "Trie False [(CHR ''C'', Trie False [(CHR ''A'', Trie False [(CHR ''T'', Trie True [])])])]"
      "''CA''" "''t''"]
    explore_cases [of "Trie False [(CHR ''C'', Trie False [(CHR ''A'', Trie False [(CHR ''T'', Trie True [])])])]"
      "''CA''" "''x''"]
  by (simp add: toUpper_def lookup_def)

subsection \<open>The side rule\<close>

lemma unique_side:
  "distinct (concat g) \<Longrightarrow> i < length g \<Longrightarrow> j < length g \<Longrightarrow> c \<in> set (g ! i) \<Longrightarrow> c \<in> set (g ! j) \<Longrightarrow> i = j"
proof (induction g arbitrary: i j)
  case Nil
  then show ?case by simp
next
  case (Cons s g)
  have disj: "c \<in> set s \<Longrightarrow> k < length g \<Longrightarrow> c \<in> set (g ! k) \<Longrightarrow> False" for k
    using Cons.prems(1) by (auto dest: nth_mem)
  show ?case
  proof (cases i)
    case 0
    then show ?thesis using Cons.prems disj by (cases j) auto
  next
    case (Suc i')
    show ?thesis
    proof (cases j)
      case 0
      then show ?thesis using Cons.prems disj Suc by auto
    next
      case (Suc j')
      with \<open>i = Suc i'\<close> Cons.prems Cons.IH[of i' j'] show ?thesis by auto
    qed
  qed
qed

lemma sameSide_iff:
  assumes "distinct (concat g)" "i < length g" "c \<in> set (g ! i)"
  shows "sameSide g c x \<longleftrightarrow> x \<in> set (g ! i)"
proof
  assume "sameSide g c x"
  then obtain s where "s \<in> set g" "c \<in> set s" "x \<in> set s"
    by (auto simp: sameSide_def list_ex_iff)
  then obtain j where "j < length g" "c \<in> set (g ! j)" "x \<in> set (g ! j)"
    by (auto simp: in_set_conv_nth)
  with unique_side[OF assms(1) assms(2) this(1) assms(3) this(2)] show "x \<in> set (g ! i)" by simp
next
  assume "x \<in> set (g ! i)"
  with assms show "sameSide g c x"
    by (auto simp: sameSide_def list_ex_iff intro!: bexI[of _ "g ! i"])
qed

lemma onSide_iff:
  assumes "distinct (concat g)" "i < length g" "c \<in> set (g ! i)"
  shows "onSide g a c \<longleftrightarrow> a = int i"
proof
  assume "onSide g a c"
  then have a: "0 \<le> a" "nat a < length g" "c \<in> set (g ! nat a)" by (auto simp: onSide_def)
  from unique_side[OF assms(1) a(2) assms(2) a(3) assms(3)] a(1) show "a = int i" by simp
next
  assume "a = int i"
  with assms show "onSide g a c" by (simp add: onSide_def)
qed

lemma in_concat_nth: "c \<in> set (concat g) \<longleftrightarrow> (\<exists>i<length g. c \<in> set (g ! i))"
proof -
  have "c \<in> set (concat g) \<longleftrightarrow> (\<exists>s\<in>set g. c \<in> set s)"
    by simp
  also have "\<dots> \<longleftrightarrow> (\<exists>i<length g. c \<in> set (g ! i))"
    by (metis in_set_conv_nth)
  finally show ?thesis .
qed

lemma isTerminal_Cons:
  "isTerminal t (ch # r) \<longleftrightarrow> (\<exists>nx. lookup t ch = Some nx \<and> isTerminal nx r)"
  by (auto simp: isTerminal_def split: option.splits)

lemma isTerminal_Nil: "isTerminal t [] = complete t"
  by (simp add: isTerminal_def)

lemma sideRule_Cons:
  "sideRule g (ch # r) \<longleftrightarrow> (r = [] \<or> (\<not> sameSide g ch (hd r) \<and> sideRule g r))"
  by (cases r) auto

text \<open>
  What \<^verbatim>\<open>validWordHelper\<close> returns, for sides with pairwise distinct letters: the
  accumulated letters followed by every non-empty path to a complete node that stays in
  the box, obeys the side rule and does not start on the forbidden side, provided the
  whole has three letters at least.
\<close>

lemma validWordHelper_iff:
  assumes d: "distinct (concat g)"
  shows "l @ ext \<in> set (validWordHelper t l g a) \<longleftrightarrow>
      (ext \<noteq> [] \<and> 3 \<le> length l + length ext \<and> isTerminal t ext \<and> set ext \<subseteq> set (concat g)
       \<and> sideRule g ext \<and> \<not> onSide g a (hd ext))"
proof (induction ext arbitrary: t l a)
  case Nil
  show ?case using validWordHelper_shape[of l t l g a] by auto
next
  case (Cons ch r)
  have step: "l @ ch # r \<in> set (validWordHelper t l g a) \<longleftrightarrow>
     (\<exists>i<length g. int i \<noteq> a \<and> ch \<in> set (g ! i) \<and> (\<exists>nx. lookup t ch = Some nx \<and>
        ((complete nx \<and> 2 \<le> length l \<and> r = [])
         \<or> (l @ [ch]) @ r \<in> set (validWordHelper nx (l @ [ch]) g (int i)))))"
    (is "?L \<longleftrightarrow> ?R")
  proof
    assume ?L
    then obtain i c' nx where i: "i < length g" "int i \<noteq> a" "c' \<in> set (g ! i)"
      and nx: "lookup t c' = Some nx"
      and w: "(complete nx \<and> 2 \<le> length l \<and> l @ ch # r = l @ [c'])
              \<or> l @ ch # r \<in> set (validWordHelper nx (l @ [c']) g (int i))"
      by (subst (asm) validWordHelper_mem) blast
    from w have eq: "c' = ch"
    proof
      assume "complete nx \<and> 2 \<le> length l \<and> l @ ch # r = l @ [c']"
      then show ?thesis by simp
    next
      assume "l @ ch # r \<in> set (validWordHelper nx (l @ [c']) g (int i))"
      from validWordHelper_shape[OF this] show ?thesis by auto
    qed
    with i nx w show ?R by (intro exI[of _ i]) auto
  next
    assume ?R
    then show ?L by (subst validWordHelper_mem) auto
  qed
  show ?case
  proof
    assume "l @ ch # r \<in> set (validWordHelper t l g a)"
    with step obtain i nx where i: "i < length g" "int i \<noteq> a" "ch \<in> set (g ! i)"
      and nx: "lookup t ch = Some nx"
      and w: "(complete nx \<and> 2 \<le> length l \<and> r = [])
              \<or> (l @ [ch]) @ r \<in> set (validWordHelper nx (l @ [ch]) g (int i))"
      by blast
    have ch: "ch \<in> set (concat g)" unfolding in_concat_nth using i by blast
    have ns: "\<not> onSide g a ch" using onSide_iff[OF d i(1) i(3), of a] i(2) by simp
    from w show "ch # r \<noteq> [] \<and> 3 \<le> length l + length (ch # r) \<and> isTerminal t (ch # r)
       \<and> set (ch # r) \<subseteq> set (concat g) \<and> sideRule g (ch # r) \<and> \<not> onSide g a (hd (ch # r))"
    proof
      assume "complete nx \<and> 2 \<le> length l \<and> r = []"
      with nx ch ns show ?thesis by (simp add: isTerminal_Cons isTerminal_Nil del: set_concat)
    next
      assume "(l @ [ch]) @ r \<in> set (validWordHelper nx (l @ [ch]) g (int i))"
      then have r: "r \<noteq> []" "3 \<le> length (l @ [ch]) + length r" "isTerminal nx r"
        "set r \<subseteq> set (concat g)" "sideRule g r" "\<not> onSide g (int i) (hd r)"
        unfolding Cons.IH by blast+
      from r(6) i(1) have "hd r \<notin> set (g ! i)" by (simp add: onSide_def)
      then have "\<not> sameSide g ch (hd r)" using sameSide_iff[OF d i(1) i(3)] by simp
      with r nx ch ns show ?thesis
        by (simp add: isTerminal_Cons sideRule_Cons del: set_concat)
    qed
  next
    assume R: "ch # r \<noteq> [] \<and> 3 \<le> length l + length (ch # r) \<and> isTerminal t (ch # r)
       \<and> set (ch # r) \<subseteq> set (concat g) \<and> sideRule g (ch # r) \<and> \<not> onSide g a (hd (ch # r))"
    then obtain nx where nx: "lookup t ch = Some nx" "isTerminal nx r"
      by (auto simp: isTerminal_Cons)
    from R have "ch \<in> set (concat g)" by (simp del: set_concat)
    then obtain i where i: "i < length g" "ch \<in> set (g ! i)" unfolding in_concat_nth by blast
    from R have "\<not> onSide g a ch" by simp
    then have ia: "int i \<noteq> a" using onSide_iff[OF d i, of a] by simp
    have "(complete nx \<and> 2 \<le> length l \<and> r = [])
              \<or> (l @ [ch]) @ r \<in> set (validWordHelper nx (l @ [ch]) g (int i))"
    proof (cases "r = []")
      case True
      with R nx show ?thesis by (simp add: isTerminal_Nil)
    next
      case False
      with R have "\<not> sameSide g ch (hd r)" "sideRule g r" by (auto simp: sideRule_Cons)
      then have "\<not> onSide g (int i) (hd r)" using sameSide_iff[OF d i] i(1) by (simp add: onSide_def)
      with R nx False \<open>sideRule g r\<close> have "(l @ [ch]) @ r \<in> set (validWordHelper nx (l @ [ch]) g (int i))"
        unfolding Cons.IH by (simp del: set_concat)
      then show ?thesis ..
    qed
    with step i ia nx show "l @ ch # r \<in> set (validWordHelper t l g a)" by blast
  qed
qed

text \<open>
  C2. In a box layout, every word that \<^verbatim>\<open>validWordHelper\<close> returns is the accumulated
  letters followed by at least one more letter; among the letters added no two
  consecutive ones are on the same side, and the first is not on the forbidden side; the
  node the added letters lead to is marked complete; and the letters before the last
  are at least two. Hence every word of \<^verbatim>\<open>validWords\<close>, and of
  \<^verbatim>\<open>validWordsStartingWith\<close> for a one-letter prefix, obeys the side rule as a whole.
\<close>

theorem validWordHelper_side_rule:
  assumes "boxLayout g"
  shows "(w \<in> set (validWordHelper t l g a) \<longrightarrow>
            (\<exists>ext. w = l @ ext \<and> ext \<noteq> [] \<and> sideRule g ext \<and> \<not> onSide g a (hd ext)
                   \<and> isTerminal t ext \<and> 2 \<le> length (butlast w)))
         \<and> (w \<in> set (validWords d g) \<longrightarrow>
               sideRule g w \<and> isTerminal d w \<and> 2 \<le> length (butlast w))
         \<and> (validWordsStartingWith d g [c] = Inr ws \<longrightarrow> w \<in> set ws \<longrightarrow>
               sideRule g w \<and> isTerminal d w \<and> 2 \<le> length (butlast w))"
proof -
  from assms have dg: "distinct (concat g)" by (simp add: boxLayout_def)
  have gen: "\<exists>ext. w = l @ ext \<and> ext \<noteq> [] \<and> sideRule g ext \<and> \<not> onSide g a (hd ext)
                   \<and> isTerminal t ext \<and> 2 \<le> length (butlast w)"
    if "w \<in> set (validWordHelper t l g a)" for w t l a
  proof -
    from validWordHelper_shape[OF that] obtain ext where e: "ext \<noteq> []" "w = l @ ext" "3 \<le> length w"
      by blast
    with that validWordHelper_iff[OF dg, of l ext t a] show ?thesis by auto
  qed
  have root: "sideRule g w \<and> isTerminal d w \<and> 2 \<le> length (butlast w)"
    if "w \<in> set (validWords d g)" for w
    using gen[of w d "[]" "- 1"] that by (auto simp: validWords_def)
  have start: "sideRule g w \<and> isTerminal d w \<and> 2 \<le> length (butlast w)"
    if "validWordsStartingWith d g [c] = Inr ws" "w \<in> set ws"
    using validWordsStartingWith_subset[OF that(1)] that(2) root by blast
  from gen root start show ?thesis by blast
qed

theorem validWordHelper_side_rule_witness:
  "boxLayout [''ABC'', ''DEF'', ''GHI'', ''JKL'']
   \<and> ''ADG'' \<in> set (validWords
         (Trie False [(CHR ''A'', Trie False [(CHR ''D'', Trie False [(CHR ''G'', Trie True [])])])])
         [''ABC'', ''DEF'', ''GHI'', ''JKL''])
   \<and> validWordsStartingWith
         (Trie False [(CHR ''A'', Trie False [(CHR ''D'', Trie False [(CHR ''G'', Trie True [])])])])
         [''ABC'', ''DEF'', ''GHI'', ''JKL''] ''A'' = Inr [''ADG'']
   \<and> sideRule [''ABC'', ''DEF'', ''GHI'', ''JKL''] ''ADG''
   \<and> isTerminal (Trie False [(CHR ''A'', Trie False [(CHR ''D'', Trie False [(CHR ''G'', Trie True [])])])]) ''ADG''
   \<and> 2 \<le> length (butlast ''ADG'')"
  using validWordHelper_side_rule [of "[''ABC'', ''DEF'', ''GHI'', ''JKL'']" "''ADG''"
      "Trie False [(CHR ''A'', Trie False [(CHR ''D'', Trie False [(CHR ''G'', Trie True [])])])]"
      "[]" "- 1"
      "Trie False [(CHR ''A'', Trie False [(CHR ''D'', Trie False [(CHR ''G'', Trie True [])])])]"
      "CHR ''A''" "[''ADG'']"]
  by (simp add: validWords_ADG validWordsStartingWith_ADG boxLayout_def)

text \<open>
No word is returned twice.
\<close>

lemma distinct_concat_map:
  "distinct xs \<Longrightarrow> (\<And>x. x \<in> set xs \<Longrightarrow> distinct (f x)) \<Longrightarrow>
   (\<And>x y. x \<in> set xs \<Longrightarrow> y \<in> set xs \<Longrightarrow> x \<noteq> y \<Longrightarrow> set (f x) \<inter> set (f y) = {}) \<Longrightarrow>
   distinct (concat (map f xs))"
proof (induction xs)
  case Nil
  then show ?case by simp
next
  case (Cons x xs)
  have "distinct (concat (map f xs))" using Cons by auto
  moreover have "distinct (f x)" using Cons.prems(2) by simp
  moreover have "set (f x) \<inter> set (f y) = {}" if "y \<in> set xs" for y
    using Cons.prems(3)[of x y] Cons.prems(1) that by auto
  ultimately show ?case by auto
qed

lemma distinct_group: "distinct (concat g) \<Longrightarrow> i < length g \<Longrightarrow> distinct (g ! i)"
  by (induction g arbitrary: i) (auto simp: nth_Cons split: nat.splits)

lemma validWordHelper_distinct:
  "distinct (concat g) \<Longrightarrow> distinct (validWordHelper t l g a)"
proof (induction t l g a rule: validWordHelper.induct)
  case (1 t l g a)
  note dg = "1.prems"
  define G where "G = (\<lambda>i ch.
     case lookup t ch of
       None \<Rightarrow> []
     | Some nx \<Rightarrow> (if complete nx \<and> 2 \<le> length l then [l @ [ch]] else [])
                   @ validWordHelper nx (l @ [ch]) g (int i))"
  define F where "F = (\<lambda>(i, grp). if int i = a then [] else concat (map (G i) grp))"
  have unf: "validWordHelper t l g a = concat (map F (enumerate 0 g))"
    unfolding F_def G_def by (subst validWordHelper.simps) (rule refl)
  have Gform: "\<exists>e. w = l @ ch # e" if "w \<in> set (G i ch)" for w i ch
  proof (cases "lookup t ch")
    case None
    with that show ?thesis by (simp add: G_def)
  next
    case (Some nx)
    with that have "w = l @ [ch] \<or> w \<in> set (validWordHelper nx (l @ [ch]) g (int i))"
      by (auto simp: G_def split: if_splits)
    then show ?thesis
    proof
      assume "w = l @ [ch]" then show ?thesis by simp
    next
      assume "w \<in> set (validWordHelper nx (l @ [ch]) g (int i))"
      from validWordHelper_shape[OF this] show ?thesis by auto
    qed
  qed
  have Gdist: "distinct (G i ch)"
    if "(i, grp) \<in> set (enumerate 0 g)" "int i \<noteq> a" "ch \<in> set grp" for i grp ch
  proof (cases "lookup t ch")
    case None
    then show ?thesis by (simp add: G_def)
  next
    case (Some nx)
    have "distinct (validWordHelper nx (l @ [ch]) g (int i))"
      using "1.IH"[OF that(1) refl that(2) that(3) Some dg] .
    moreover have "l @ [ch] \<notin> set (validWordHelper nx (l @ [ch]) g (int i))"
      using validWordHelper_shape[of "l @ [ch]" nx "l @ [ch]" g "int i"] by auto
    ultimately show ?thesis using Some by (auto simp: G_def)
  qed
  have Fform: "\<exists>ch\<in>set grp. \<exists>e. w = l @ ch # e" if "w \<in> set (F (i, grp))" for w i grp
  proof -
    from that obtain x where "x \<in> set grp" "w \<in> set (G i x)"
      by (auto simp: F_def split: if_splits)
    with Gform[of w i x] show ?thesis by blast
  qed
  have Fdist: "distinct (F p)" if "p \<in> set (enumerate 0 g)" for p
  proof -
    obtain i grp where p: "p = (i, grp)" by (cases p)
    with that have i: "i < length g" "grp = g ! i" by (auto simp: in_set_enumerate_eq)
    show ?thesis
    proof (cases "int i = a")
      case True
      then show ?thesis by (simp add: F_def p)
    next
      case False
      have "distinct (concat (map (G i) grp))"
      proof (rule distinct_concat_map)
        show "distinct grp" using distinct_group[OF dg i(1)] i(2) by simp
        show "distinct (G i x)" if "x \<in> set grp" for x
          using Gdist[of i grp x] \<open>p \<in> set (enumerate 0 g)\<close> p False that by simp
        show "set (G i x) \<inter> set (G i y) = {}" if "x \<noteq> y" for x y
          using Gform[of _ i x] Gform[of _ i y] that by fastforce
      qed
      with False show ?thesis by (simp add: F_def p)
    qed
  qed
  have Fdisj: "set (F p) \<inter> set (F q) = {}"
    if "p \<in> set (enumerate 0 g)" "q \<in> set (enumerate 0 g)" "p \<noteq> q" for p q
  proof -
    obtain i grp j grp' where pq: "p = (i, grp)" "q = (j, grp')" by (cases p, cases q)
    with that have ij: "i < length g" "grp = g ! i" "j < length g" "grp' = g ! j" "i \<noteq> j"
      by (auto simp: in_set_enumerate_eq)
    show ?thesis
    proof (rule ccontr)
      assume "set (F p) \<inter> set (F q) \<noteq> {}"
      then obtain w where w: "w \<in> set (F (i, grp))" "w \<in> set (F (j, grp'))" using pq by auto
      from Fform[OF w(1)] Fform[OF w(2)] obtain ch where "ch \<in> set grp" "ch \<in> set grp'" by auto
      with unique_side[OF dg ij(1) ij(3)] ij show False by simp
    qed
  qed
  show ?case
    unfolding unf by (rule distinct_concat_map) (use Fdist Fdisj in \<open>auto simp: distinct_enumerate\<close>)
qed

subsection \<open>The ranking\<close>

text \<open>
  \<^verbatim>\<open>byLengthThenAlphabetically\<close> is a strict total order, so a list has one ranked
  arrangement only.
\<close>

lemma strLess_irrefl: "\<not> strLess x x"
  by (induction x) auto

lemma strLess_trans: "strLess x y \<Longrightarrow> strLess y z \<Longrightarrow> strLess x z"
proof (induction x y arbitrary: z rule: strLess.induct)
  case (4 x xs y ys)
  then show ?case by (cases z) (auto split: if_splits)
qed (auto elim: strLess.elims)

lemma strLess_total: "x \<noteq> y \<Longrightarrow> strLess x y \<or> strLess y x"
proof (induction x y rule: strLess.induct)
  case (4 x xs y ys)
  show ?case
  proof (cases "x = y")
    case True
    with 4 show ?thesis by auto
  next
    case False
    then have "(of_char x :: nat) < of_char y \<or> (of_char y :: nat) < of_char x"
      by (metis of_char_eq_iff linorder_neqE_nat)
    then show ?thesis by auto
  qed
qed auto

lemma rank_irrefl: "\<not> byLengthThenAlphabetically x x"
  by (simp add: byLengthThenAlphabetically_def strLess_irrefl)

lemma rank_trans:
  "byLengthThenAlphabetically x y \<Longrightarrow> byLengthThenAlphabetically y z \<Longrightarrow> byLengthThenAlphabetically x z"
  by (auto simp: byLengthThenAlphabetically_def Let_def dest: strLess_trans)

lemma rank_total: "x \<noteq> y \<Longrightarrow> byLengthThenAlphabetically x y \<or> byLengthThenAlphabetically y x"
  using strLess_total[of x y] by (auto simp: byLengthThenAlphabetically_def Let_def)

definition ranked :: "string list \<Rightarrow> bool" where
  "ranked ws = sorted_wrt (\<lambda>x y. \<not> byLengthThenAlphabetically y x) ws"

lemma mset_insertBy: "mset (insertBy lt x xs) = add_mset x (mset xs)"
  by (induction xs) auto

lemma mset_sortSlice: "mset (sortSlice lt xs) = mset xs"
  by (induction xs) (auto simp: sortSlice_def mset_insertBy)

lemma set_insertBy: "set (insertBy lt x xs) = insert x (set xs)"
  by (induction xs) auto

lemma ranked_insertBy:
  "ranked ws \<Longrightarrow> ranked (insertBy byLengthThenAlphabetically x ws)"
proof (induction ws)
  case Nil
  then show ?case by (simp add: ranked_def)
next
  case (Cons y ws)
  show ?case
  proof (cases "byLengthThenAlphabetically y x")
    case True
    then have "\<not> byLengthThenAlphabetically x y" using rank_trans rank_irrefl by blast
    with Cons True show ?thesis by (auto simp: ranked_def set_insertBy)
  next
    case False
    have "\<not> byLengthThenAlphabetically z x" if "z \<in> set ws" for z
    proof
      assume zx: "byLengthThenAlphabetically z x"
      from Cons.prems that have "\<not> byLengthThenAlphabetically z y" by (auto simp: ranked_def)
      have "x \<noteq> y" using zx \<open>\<not> byLengthThenAlphabetically z y\<close> by auto
      with False rank_total[of x y] have "byLengthThenAlphabetically x y" by blast
      from rank_trans[OF zx this] \<open>\<not> byLengthThenAlphabetically z y\<close> show False by blast
    qed
    with Cons.prems False show ?thesis by (auto simp: ranked_def)
  qed
qed

lemma ranked_sortSlice: "ranked (sortSlice byLengthThenAlphabetically ws)"
  by (induction ws) (auto simp: sortSlice_def ranked_def intro: ranked_insertBy[unfolded ranked_def])

lemma ranked_unique:
  "ranked xs \<Longrightarrow> ranked ys \<Longrightarrow> mset xs = mset ys \<Longrightarrow> xs = ys"
proof (induction xs arbitrary: ys)
  case Nil
  then show ?case by simp
next
  case (Cons x xs)
  from Cons.prems(3) obtain y ys' where ys: "ys = y # ys'"
    by (cases ys) auto
  have sets: "set (x # xs) = set (y # ys')"
    using mset_eq_setD[OF Cons.prems(3)] ys by simp
  have "\<not> byLengthThenAlphabetically y x"
  proof (cases "y = x")
    case True
    then show ?thesis by (simp add: rank_irrefl)
  next
    case False
    with sets have "y \<in> set xs" by auto
    with Cons.prems(1) show ?thesis by (simp add: ranked_def)
  qed
  moreover have "\<not> byLengthThenAlphabetically x y"
  proof (cases "x = y")
    case True
    then show ?thesis by (simp add: rank_irrefl)
  next
    case False
    with sets have "x \<in> set ys'" by auto
    with Cons.prems(2) ys show ?thesis by (simp add: ranked_def)
  qed
  ultimately have xy: "x = y" using rank_total by blast
  with Cons.prems(3) ys have "mset xs = mset ys'" by simp
  moreover have "ranked xs" "ranked ys'" using Cons.prems(1,2) ys by (simp_all add: ranked_def)
  ultimately have "xs = ys'" using Cons.IH by blast
  with xy ys show ?case by simp
qed

lemma sortSlice_unique:
  "ranked ys \<Longrightarrow> mset ys = mset ws \<Longrightarrow> ys = sortSlice byLengthThenAlphabetically ws"
  by (rule ranked_unique[OF _ ranked_sortSlice]) (simp_all add: mset_sortSlice)

subsection \<open>The summing loops\<close>

lemma sumLoop_Inl: "sumLoop f xs acc = Inl e \<Longrightarrow> \<exists>x\<in>set xs. f x = Inl e"
  by (induction xs arbitrary: acc) (auto split: sum.splits)

lemma sumLoop_Inr:
  "(\<And>x. x \<in> set xs \<Longrightarrow> f x = Inr (n x)) \<Longrightarrow> sumLoop f xs acc = Inr (acc + sum_list (map n xs))"
  by (induction xs arbitrary: acc) (auto simp: add.assoc)

lemma sumLoop_abort:
  "x \<in> set xs \<Longrightarrow> f x = Inl e \<Longrightarrow> \<exists>e'. sumLoop f xs acc = Inl e'"
  by (induction xs arbitrary: acc) (auto split: sum.splits)

lemma sumLoop_permute:
  assumes one: "\<And>x e. x \<in> set xs \<Longrightarrow> f x = Inl e \<Longrightarrow> e = e0"
    and perm: "mset xs = mset ys"
  shows "sumLoop f xs acc = sumLoop f ys acc"
proof -
  have sets: "set xs = set ys" using perm by (rule mset_eq_setD)
  show ?thesis
  proof (cases "\<exists>x\<in>set xs. \<exists>e. f x = Inl e")
    case True
    then obtain x e where x: "x \<in> set xs" "f x = Inl e" by blast
    from x sumLoop_abort[of x xs f e acc] obtain e1 where e1: "sumLoop f xs acc = Inl e1" by blast
    from x sets sumLoop_abort[of x ys f e acc] obtain e2 where e2: "sumLoop f ys acc = Inl e2" by blast
    from sumLoop_Inl[OF e1] one have "e1 = e0" by blast
    moreover from sumLoop_Inl[OF e2] one sets have "e2 = e0" by blast
    ultimately show ?thesis using e1 e2 by simp
  next
    case False
    define n where "n x = (case f x of Inr k \<Rightarrow> k | Inl _ \<Rightarrow> 0)" for x
    have fx: "f x = Inr (n x)" if "x \<in> set xs" for x
      using False that by (cases "f x") (auto simp: n_def)
    have "sum_list (map n xs) = sum_mset (image_mset n (mset xs))"
      by (metis mset_map sum_mset_sum_list)
    also have "\<dots> = sum_list (map n ys)"
      unfolding perm by (metis mset_map sum_mset_sum_list)
    finally show ?thesis
      using sumLoop_Inr[of xs f n acc] sumLoop_Inr[of ys f n acc] fx sets by simp
  qed
qed

lemma validWords_last:
  assumes "w \<in> set (validWordHelper t l g a)"
  shows "last w \<in> set (concat g)"
  using assms
proof (induction t l g a arbitrary: w rule: validWordHelper.induct)
  case (1 t l g a)
  from "1.prems" obtain i ch nx where i: "i < length g" "int i \<noteq> a" "ch \<in> set (g ! i)"
    and nx: "lookup t ch = Some nx"
    and w: "(complete nx \<and> 2 \<le> length l \<and> w = l @ [ch]) \<or> w \<in> set (validWordHelper nx (l @ [ch]) g (int i))"
    by (subst (asm) validWordHelper_mem) blast
  from w show ?case
  proof
    assume "complete nx \<and> 2 \<le> length l \<and> w = l @ [ch]"
    then have "last w = ch" by simp
    with i show ?thesis by (auto simp del: set_concat simp: in_concat_nth)
  next
    assume "w \<in> set (validWordHelper nx (l @ [ch]) g (int i))"
    moreover have "(i, g ! i) \<in> set (enumerate 0 g)" using i(1) by (simp add: in_set_enumerate_eq)
    ultimately show ?thesis
      using "1.IH"[OF _ refl i(2) i(3) nx] by blast
  qed
qed

lemma startingWith_words_end_in_box:
  assumes "validWordsStartingWith d g [c] = Inr ws" "w \<in> set ws"
  shows "w \<noteq> [] \<and> last w \<in> set (concat g)"
proof -
  from validWordsStartingWith_subset[OF assms(1)] assms(2)
  have w: "w \<in> set (validWordHelper d [] g (- 1))" by (auto simp: validWords_def)
  from validWordHelper_shape[OF w] validWords_last[OF w] show ?thesis by auto
qed

lemma startingWith_in_box_abort:
  assumes "c \<in> set (concat g)" "validWordsStartingWith d g [c] = Inl e"
  shows "e = NilDereference"
proof -
  from assms(1) have "findGroup g [c] 0 \<noteq> - 1" by (simp add: findGroup_single)
  with assms(2) show ?thesis
    by (auto simp: validWordsStartingWith_def validWordHelper_ptr_def Let_def split: option.splits if_splits)
qed

lemma helper_abort:
  "words \<noteq> [] \<Longrightarrow> last words \<noteq> [] \<Longrightarrow> last (last words) \<in> set (concat g) \<Longrightarrow>
   helper d g words = Inl e \<Longrightarrow> e = NilDereference"
proof (induction d g words rule: helper.induct)
  case (1 d g words)
  show ?case
  proof (cases "validWordsStartingWith d g [last (last words)]")
    case (Inl e')
    with "1.prems" have "e = e'" by (subst (asm) helper.simps) (simp add: Let_def)
    with startingWith_in_box_abort[OF "1.prems"(3) Inl] show ?thesis by simp
  next
    case (Inr nextWords)
    show ?thesis
    proof (cases "length words = 3")
      case True
      with "1.prems" Inr show ?thesis by (subst (asm) helper.simps) (simp add: Let_def split: if_splits)
    next
      case False
      with "1.prems" Inr have "sumLoop (\<lambda>nw. helper d g (words @ [nw]))
                     (filter (\<lambda>nw. nw \<notin> set words) nextWords) 0 = Inl e"
        by (subst (asm) helper.simps) (simp add: Let_def)
      from sumLoop_Inl[OF this] obtain nw where nw: "nw \<in> set nextWords" "nw \<notin> set words"
        "helper d g (words @ [nw]) = Inl e" by auto
      from startingWith_words_end_in_box[OF Inr nw(1)] have ok: "nw \<noteq> []" "last nw \<in> set (concat g)" by auto
      show ?thesis
        using "1.IH"[OF "1.prems"(1) refl "1.prems"(2) refl Inr False, of nw] nw ok by simp
    qed
  qed
qed

lemma fixtureTrie_loaded:
  "loadWords (Some [''adgjbeh'', ''hka'', ''afcil'', ''la'']) = Some fixtureTrie"
  by (simp add: loadWords_def addWord_def containsAny_def filtered_def toUpper_def lookup_def
        fixtureTrie_def)

lemma shortWordTrie_loaded:
  "loadWords (Some [''adgjbeh'', ''hk'', ''kcfil'', ''la'']) = Some shortWordTrie"
  by (simp add: loadWords_def addWord_def containsAny_def filtered_def toUpper_def lookup_def
        shortWordTrie_def)

lemma fixture_validWords:
  "validWords fixtureTrie fixtureBox = [''ADGJBEH'', ''AFCIL'', ''HKA'']"
  by code_simp

lemma fixture_count: "numberOfSolutions fixtureTrie fixtureBox = Inr 1"
  by code_simp

lemma shortWord_count: "numberOfSolutions shortWordTrie fixtureBox = Inr 0"
  by code_simp

lemma fixture_boxLayout: "boxLayout fixtureBox"
  by (simp add: boxLayout_def fixtureBox_def)

text \<open>
  C7. The count does not depend on the order in which the candidate words drive the
  outer loop: started from any permutation of the list of \<^verbatim>\<open>validWords\<close>, the loop
  gives the result that \<^verbatim>\<open>numberOfSolutions\<close> gives from the sorted list (the same
  number, or the same panic).
\<close>

theorem count_order_independent:
  assumes "mset ws = mset (validWords d g)"
  shows "countFrom d g ws = numberOfSolutions d g"
proof -
  have ok: "e = NilDereference" if "w \<in> set ws" "helper d g [w] = Inl e" for w e
  proof -
    from that(1) assms have w: "w \<in> set (validWordHelper d [] g (- 1))"
      by (metis mset_eq_setD validWords_def)
    from validWordHelper_shape[OF w] validWords_last[OF w] that(2) show ?thesis
      by (intro helper_abort[of "[w]" g d e]) auto
  qed
  have "mset ws = mset (sortSlice byLengthThenAlphabetically (validWords d g))"
    by (simp add: mset_sortSlice assms)
  from sumLoop_permute[of ws "\<lambda>w. helper d g [w]" NilDereference, OF ok this]
  show ?thesis by (simp add: countFrom_def numberOfSolutions_def)
qed

theorem count_order_independent_witness:
  "mset [''HKA'', ''ADGJBEH'', ''AFCIL''] = mset (validWords fixtureTrie fixtureBox)
   \<and> countFrom fixtureTrie fixtureBox [''HKA'', ''ADGJBEH'', ''AFCIL'']
       = numberOfSolutions fixtureTrie fixtureBox"
proof -
  have m: "mset [''HKA'', ''ADGJBEH'', ''AFCIL''] = mset (validWords fixtureTrie fixtureBox)"
    unfolding fixture_validWords by simp
  from count_order_independent[OF m] m show ?thesis by blast
qed

text \<open>
  The panic of \<^verbatim>\<open>validWordsStartingWith\<close> reaches \<^verbatim>\<open>numberOfSolutions\<close>: it is enough
  that one valid word ends in a letter with which no dictionary word starts, as G in
  the dictionary of the single word ADG.
\<close>

lemma numberOfSolutions_nil:
  assumes bl: "boxLayout g" and w: "w \<in> set (validWords d g)" and n: "lookup d (last w) = None"
  shows "numberOfSolutions d g = Inl NilDereference"
proof -
  let ?ws = "sortSlice byLengthThenAlphabetically (validWords d g)"
  have sets: "set ?ws = set (validWords d g)"
    by (rule mset_eq_setD[OF mset_sortSlice])
  from w have w': "w \<in> set (validWordHelper d [] g (- 1))" by (simp add: validWords_def)
  from validWordHelper_shape[OF w'] have ne: "w \<noteq> []" by auto
  from startingWith_nil[OF bl validWords_last[OF w'] n] ne
  have "helper d g [w] = Inl NilDereference"
    by (subst helper.simps) (simp add: Let_def)
  with w sets sumLoop_abort[of w ?ws "\<lambda>w. helper d g [w]" NilDereference 0]
  obtain e where e: "countFrom d g ?ws = Inl e" by (auto simp: countFrom_def)
  then obtain x where x: "x \<in> set ?ws" "helper d g [x] = Inl e"
    unfolding countFrom_def by (blast dest: sumLoop_Inl)
  from x(1) sets have x': "x \<in> set (validWordHelper d [] g (- 1))" by (simp add: validWords_def)
  from validWordHelper_shape[OF x'] validWords_last[OF x'] x(2) have "e = NilDereference"
    by (intro helper_abort[of "[x]" g d e]) auto
  with e show ?thesis by (simp add: numberOfSolutions_def)
qed

lemma numberOfSolutions_ADG:
  "numberOfSolutions (Trie False [(CHR ''A'', Trie False [(CHR ''D'', Trie False [(CHR ''G'', Trie True [])])])])
     [''ABC'', ''DEF'', ''GHI'', ''JKL''] = Inl NilDereference"
  by code_simp

subsection \<open>Solutions\<close>

lemma validWords_set:
  assumes "distinct (concat g)"
  shows "set (validWords d g) = {w. boxValid d g w}"
proof (intro set_eqI iffI)
  fix w assume "w \<in> set (validWords d g)"
  then have w: "w \<in> set (validWordHelper d [] g (- 1))" by (simp add: validWords_def)
  from validWordHelper_shape[OF w] have "[] @ w \<in> set (validWordHelper d [] g (- 1))" using w by simp
  then show "w \<in> {w. boxValid d g w}"
    unfolding validWordHelper_iff[OF assms] by (simp add: boxValid_def boxWord_def del: set_concat)
next
  fix w assume "w \<in> {w. boxValid d g w}"
  then have "[] @ w \<in> set (validWordHelper d [] g (- 1))"
    unfolding validWordHelper_iff[OF assms]
    by (auto simp: boxValid_def boxWord_def onSide_def simp del: set_concat)
  then show "w \<in> set (validWords d g)" by (simp add: validWords_def)
qed

lemma validWords_distinct: "distinct (concat g) \<Longrightarrow> distinct (validWords d g)"
  by (simp add: validWords_def validWordHelper_distinct)

lemma findGroup_index:
  assumes "distinct (concat g)" "i < length g" "c \<in> set (g ! i)"
  shows "findGroup g [c] 0 = int i"
proof -
  have "c \<in> set (concat g)" unfolding in_concat_nth using assms by blast
  then have "findGroup g [c] 0 \<noteq> - 1" by (simp add: findGroup_single)
  from findGroup_found[OF this] obtain j where j: "j < length g" "findGroup g [c] 0 = int j"
    "contains (g ! j) [c]" by auto
  from j(3) have "c \<in> set (g ! j)" by (simp add: contains_single)
  from unique_side[OF assms(1) j(1) assms(2) this assms(3)] j(2) show ?thesis by simp
qed

lemma startingWith_set:
  assumes dg: "distinct (concat g)" and c: "c \<in> set (concat g)" and n: "lookup d c = Some n"
  shows "\<exists>ws. validWordsStartingWith d g [c] = Inr ws \<and> distinct ws
              \<and> set ws = {w. boxValid d g w \<and> hd w = c}"
proof -
  from c obtain i where i: "i < length g" "c \<in> set (g ! i)" unfolding in_concat_nth by blast
  have fg: "findGroup g [c] 0 = int i" by (rule findGroup_index[OF dg i])
  let ?ws = "validWordHelper n [c] g (int i)"
  have eq: "validWordsStartingWith d g [c] = Inr ?ws"
    using fg n by (simp add: validWordsStartingWith_def validWordHelper_ptr_def Let_def)
  have "set ?ws = {w. boxValid d g w \<and> hd w = c}"
  proof (intro set_eqI iffI)
    fix w assume w: "w \<in> set ?ws"
    from validWordHelper_shape[OF w] obtain ext where e: "ext \<noteq> []" "w = [c] @ ext" by blast
    with w have "[c] @ ext \<in> set ?ws" by simp
    then have r: "3 \<le> length [c] + length ext" "isTerminal n ext" "set ext \<subseteq> set (concat g)"
      "sideRule g ext" "\<not> onSide g (int i) (hd ext)"
      unfolding validWordHelper_iff[OF dg] by blast+
    from r(5) i(1) have "hd ext \<notin> set (g ! i)" by (simp add: onSide_def)
    then have "\<not> sameSide g c (hd ext)" using sameSide_iff[OF dg i] by simp
    with r e n c show "w \<in> {w. boxValid d g w \<and> hd w = c}"
      by (simp add: boxValid_def boxWord_def isTerminal_Cons sideRule_Cons del: set_concat)
  next
    fix w assume "w \<in> {w. boxValid d g w \<and> hd w = c}"
    then have b: "3 \<le> length w" "isTerminal d w" "set w \<subseteq> set (concat g)" "sideRule g w" "hd w = c"
      by (auto simp: boxValid_def boxWord_def simp del: set_concat)
    from b(1,5) obtain ext where e: "w = c # ext" "ext \<noteq> []" by (cases w) fastforce+
    from b e n have t: "isTerminal n ext" by (simp add: isTerminal_Cons)
    from b e have s: "\<not> sameSide g c (hd ext)" "sideRule g ext" by (auto simp: sideRule_Cons)
    from s(1) have "\<not> onSide g (int i) (hd ext)" using sameSide_iff[OF dg i] by (simp add: onSide_def)
    with b e t s have "[c] @ ext \<in> set ?ws"
      unfolding validWordHelper_iff[OF dg] by (simp del: set_concat)
    with e show "w \<in> set ?ws" by simp
  qed
  with eq validWordHelper_distinct[OF dg, of n "[c]" "int i"] show ?thesis by blast
qed

lemma boxValid_finite: "distinct (concat g) \<Longrightarrow> finite {w. boxValid d g w}"
  using validWords_set[of g d] by (metis List.finite_set)

lemma followers_finite: "distinct (concat g) \<Longrightarrow> finite (followers d g words)"
  by (rule finite_subset[OF _ boxValid_finite[of g d]]) (auto simp: followers_def)

lemma boxValid_last:
  "boxValid d g w \<Longrightarrow> w \<noteq> [] \<and> last w \<in> set (concat g)"
proof -
  assume b: "boxValid d g w"
  then have ne: "w \<noteq> []" by (auto simp: boxValid_def)
  moreover from b have "set w \<subseteq> set (concat g)" by (simp add: boxValid_def boxWord_def del: set_concat)
  ultimately show ?thesis using last_in_set[of w] by blast
qed

lemma sumLoop_count_acc:
  "(\<And>x. x \<in> set xs \<Longrightarrow> f x = Inr (of_nat (n x))) \<Longrightarrow>
   sumLoop f xs acc = Inr (acc + of_nat (sum_list (map n xs)))"
  by (induction xs arbitrary: acc) (auto simp: add.assoc)

lemma sumLoop_count:
  assumes "distinct xs" "\<And>x. x \<in> set xs \<Longrightarrow> f x = Inr (of_nat (n x))"
  shows "sumLoop f xs 0 = Inr (of_nat (sum n (set xs)))"
  using sumLoop_count_acc[of xs f n 0, OF assms(2)] sum_list_distinct_conv_sum_set[OF assms(1), of n]
  by simp

lemma helper_step:
  assumes dg: "distinct (concat g)"
    and nonil: "\<And>w. boxValid d g w \<Longrightarrow> lookup d (last w) \<noteq> None"
    and ne: "words \<noteq> []" and lw: "boxValid d g (last words)"
  shows "\<exists>xs. distinct xs \<and> set xs = followers d g words \<and>
           helper d g words =
             (if length words = 3 then Inr (if isGameComplete words then 1 else 0)
              else sumLoop (\<lambda>nw. helper d g (words @ [nw])) xs 0)"
proof -
  from boxValid_last[OF lw] have l: "last words \<noteq> []" "last (last words) \<in> set (concat g)" by auto
  from nonil[OF lw] obtain n where n: "lookup d (last (last words)) = Some n" by auto
  from startingWith_set[OF dg l(2) n] obtain ws where ws:
    "validWordsStartingWith d g [last (last words)] = Inr ws" "distinct ws"
    "set ws = {w. boxValid d g w \<and> hd w = last (last words)}" by blast
  let ?xs = "filter (\<lambda>nw. nw \<notin> set words) ws"
  have "distinct ?xs" using ws(2) by simp
  moreover have "set ?xs = followers d g words" using ws(3) by (auto simp: followers_def)
  moreover have "helper d g words =
             (if length words = 3 then Inr (if isGameComplete words then 1 else 0)
              else sumLoop (\<lambda>nw. helper d g (words @ [nw])) ?xs 0)"
    using ne l(1) ws(1) by (subst helper.simps) (simp add: Let_def)
  ultimately show ?thesis by blast
qed

lemma helper_three:
  assumes dg: "distinct (concat g)"
    and nonil: "\<And>w. boxValid d g w \<Longrightarrow> lookup d (last w) \<noteq> None"
    and c: "boxValid d g c"
  shows "helper d g [a, b, c] = Inr (of_nat (if isGameComplete [a, b, c] then 1 else 0))"
  using helper_step[OF dg nonil, of "[a, b, c]"] c by auto

lemma helper_two:
  assumes dg: "distinct (concat g)"
    and nonil: "\<And>w. boxValid d g w \<Longrightarrow> lookup d (last w) \<noteq> None"
    and b: "boxValid d g b"
  shows "helper d g [a, b] = Inr (of_nat (card {c \<in> followers d g [a, b]. isGameComplete [a, b, c]}))"
proof -
  from helper_step[OF dg nonil, of "[a, b]"] b obtain xs where xs: "distinct xs"
    "set xs = followers d g [a, b]"
    "helper d g [a, b] = sumLoop (\<lambda>nw. helper d g ([a, b] @ [nw])) xs 0" by auto
  have "sumLoop (\<lambda>nw. helper d g ([a, b] @ [nw])) xs 0
          = Inr (of_nat (sum (\<lambda>c. if isGameComplete [a, b, c] then 1 else 0) (set xs)))"
  proof (rule sumLoop_count[OF xs(1)])
    fix c assume "c \<in> set xs"
    then have "boxValid d g c" using xs(2) by (simp add: followers_def)
    from helper_three[OF dg nonil this, of a b]
    show "helper d g ([a, b] @ [c]) = Inr (of_nat (if isGameComplete [a, b, c] then 1 else 0))" by simp
  qed
  moreover have "sum (\<lambda>c. if isGameComplete [a, b, c] then 1 else 0) (followers d g [a, b])
          = card {c \<in> followers d g [a, b]. isGameComplete [a, b, c]}"
    using followers_finite[OF dg, of d "[a, b]"]
    by (simp add: sum.inter_filter[symmetric])
  ultimately show ?thesis using xs by simp
qed

lemma helper_one:
  assumes dg: "distinct (concat g)"
    and nonil: "\<And>w. boxValid d g w \<Longrightarrow> lookup d (last w) \<noteq> None"
    and a: "boxValid d g a"
  shows "helper d g [a] = Inr (of_nat (\<Sum>b\<in>followers d g [a].
            card {c \<in> followers d g [a, b]. isGameComplete [a, b, c]}))"
proof -
  from helper_step[OF dg nonil, of "[a]"] a obtain xs where xs: "distinct xs"
    "set xs = followers d g [a]"
    "helper d g [a] = sumLoop (\<lambda>nw. helper d g ([a] @ [nw])) xs 0" by auto
  have "sumLoop (\<lambda>nw. helper d g ([a] @ [nw])) xs 0
          = Inr (of_nat (sum (\<lambda>b. card {c \<in> followers d g [a, b]. isGameComplete [a, b, c]}) (set xs)))"
  proof (rule sumLoop_count[OF xs(1)])
    fix b assume "b \<in> set xs"
    then have "boxValid d g b" using xs(2) by (simp add: followers_def)
    from helper_two[OF dg nonil this, of a]
    show "helper d g ([a] @ [b]) = Inr (of_nat (card {c \<in> followers d g [a, b]. isGameComplete [a, b, c]}))"
      by simp
  qed
  with xs show ?thesis by simp
qed

lemma countFrom_total:
  assumes dg: "distinct (concat g)"
    and nonil: "\<And>w. boxValid d g w \<Longrightarrow> lookup d (last w) \<noteq> None"
    and ws: "distinct ws" "set ws = {w. boxValid d g w}"
  shows "countFrom d g ws = Inr (of_nat (\<Sum>a | boxValid d g a. \<Sum>b\<in>followers d g [a].
            card {c \<in> followers d g [a, b]. isGameComplete [a, b, c]}))"
proof -
  have "sumLoop (\<lambda>w. helper d g [w]) ws 0
      = Inr (of_nat (sum (\<lambda>a. \<Sum>b\<in>followers d g [a].
            card {c \<in> followers d g [a, b]. isGameComplete [a, b, c]}) (set ws)))"
  proof (rule sumLoop_count[OF ws(1)])
    fix a assume "a \<in> set ws"
    then have "boxValid d g a" using ws(2) by simp
    from helper_one[OF dg nonil this]
    show "helper d g [a] = Inr (of_nat (\<Sum>b\<in>followers d g [a].
            card {c \<in> followers d g [a, b]. isGameComplete [a, b, c]}))" .
  qed
  then show ?thesis by (simp add: countFrom_def ws(2))
qed

lemma boxValid_letters:
  "boxValid d g a \<Longrightarrow> boxValid d g b \<Longrightarrow> boxValid d g c \<Longrightarrow>
   set (concat [a, b, c]) \<subseteq> set (concat g)"
  by (auto simp: boxValid_def boxWord_def simp del: set_concat)

lemma solutions_as_triples:
  assumes bl: "boxLayout g"
  shows "{chain. isSolution (boxValid d g) g chain}
     = (\<lambda>(a, b, c). [a, b, c]) `
        (SIGMA a:{a. boxValid d g a}. SIGMA b:followers d g [a].
           {c \<in> followers d g [a, b]. isGameComplete [a, b, c]})"
  (is "?S = ?f ` ?T")
proof (intro set_eqI iffI)
  fix chain assume "chain \<in> ?S"
  then have s: "length chain = 3" "list_all (boxValid d g) chain" "chained chain" "distinct chain"
    "set (concat chain) = set (concat g)" by (auto simp: isSolution_def simp del: set_concat)
  from s(1) obtain a b c where ch: "chain = [a, b, c]"
    by (auto simp: length_Suc_conv numeral_3_eq_3)
  from s(2) ch have v: "boxValid d g a" "boxValid d g b" "boxValid d g c" by auto
  from isGameComplete_covers[OF bl boxValid_letters[OF v]] s(5) ch
  have "isGameComplete [a, b, c]" by simp
  with s(3,4) ch v have "(a, b, c) \<in> ?T" by (auto simp: followers_def)
  then show "chain \<in> ?f ` ?T" using ch by force
next
  fix chain assume "chain \<in> ?f ` ?T"
  then obtain a b c where ch: "chain = [a, b, c]" and v: "boxValid d g a" and
    b: "b \<in> followers d g [a]" and c: "c \<in> followers d g [a, b]" and gc: "isGameComplete [a, b, c]"
    by auto
  from b c have vb: "boxValid d g b" "hd b = last a" "b \<noteq> a"
    and vc: "boxValid d g c" "hd c = last b" "c \<noteq> a" "c \<noteq> b" by (auto simp: followers_def)
  from v vb vc have ne: "a \<noteq> []" "b \<noteq> []" "c \<noteq> []" by (auto simp: boxValid_def)
  from isGameComplete_covers[OF bl boxValid_letters[OF v vb(1) vc(1)]] gc
  have "set (concat [a, b, c]) = set (concat g)" by simp
  with ch v vb vc ne show "chain \<in> ?S" by (auto simp: isSolution_def simp del: set_concat)
qed

lemma card_solutions:
  assumes bl: "boxLayout g"
  shows "card {chain. isSolution (boxValid d g) g chain}
     = (\<Sum>a | boxValid d g a. \<Sum>b\<in>followers d g [a].
            card {c \<in> followers d g [a, b]. isGameComplete [a, b, c]})"
proof -
  from bl have dg: "distinct (concat g)" by (simp add: boxLayout_def)
  let ?C = "\<lambda>a b. {c \<in> followers d g [a, b]. isGameComplete [a, b, c]}"
  let ?T = "SIGMA a:{a. boxValid d g a}. SIGMA b:followers d g [a]. ?C a b"
  have inj: "inj_on (\<lambda>(a, b, c). [a, b, c]) ?T" by (auto simp: inj_on_def)
  have finC: "finite (?C a b)" for a b using followers_finite[OF dg, of d "[a, b]"] by simp
  have inner: "card (SIGMA b:followers d g [a]. ?C a b) = (\<Sum>b\<in>followers d g [a]. card (?C a b))" for a
    using followers_finite[OF dg, of d "[a]"] finC by (intro card_SigmaI) auto
  have finI: "finite (SIGMA b:followers d g [a]. ?C a b)" for a
    using followers_finite[OF dg, of d "[a]"] finC by (intro finite_SigmaI) auto
  have "card ?T = (\<Sum>a | boxValid d g a. card (SIGMA b:followers d g [a]. ?C a b))"
    using boxValid_finite[OF dg, of d] finI by (intro card_SigmaI) auto
  with inner have "card ?T = (\<Sum>a | boxValid d g a. \<Sum>b\<in>followers d g [a]. card (?C a b))" by simp
  then show ?thesis
    unfolding solutions_as_triples[OF bl] card_image[OF inj] .
qed

lemma sint_count: "n < 2 ^ 63 \<Longrightarrow> sint (word_of_nat n :: 64 word) = int n"
  by (simp add: signed_of_nat signed_take_bit_int_eq_self)

lemma numberOfSolutions_count:
  assumes bl: "boxLayout g"
    and nonil: "list_all (\<lambda>w. lookup d (last w) \<noteq> None) (validWords d g)"
  shows "numberOfSolutions d g = Inr (word_of_nat (card {chain. isSolution (boxValid d g) g chain}))"
proof -
  from bl have dg: "distinct (concat g)" by (simp add: boxLayout_def)
  have nn: "lookup d (last w) \<noteq> None" if "boxValid d g w" for w
    using nonil that validWords_set[OF dg, of d] by (auto simp: list_all_iff)
  let ?ws = "sortSlice byLengthThenAlphabetically (validWords d g)"
  have m: "mset ?ws = mset (validWords d g)" by (rule mset_sortSlice)
  have "distinct ?ws" using validWords_distinct[OF dg, of d] m by (metis mset_eq_imp_distinct_iff)
  moreover have "set ?ws = {w. boxValid d g w}"
    using validWords_set[OF dg, of d] mset_eq_setD[OF m] by simp
  ultimately show ?thesis
    using countFrom_total[OF dg nn, of ?ws] card_solutions[OF bl, of d]
    by (simp add: numberOfSolutions_def)
qed

text \<open>
  C1. The specification says that \<^verbatim>\<open>numberOfSolutions\<close> returns the number of solutions
  whose words are dictionary words obeying the side rule. The code never produces a word
  of fewer than three letters, so a chain through a two-letter word is not counted: with
  the dictionary ADGJBEH, HK, KCFIL, LA the chain ADGJBEH, HK, KCFIL meets every
  condition and the count is 0. What holds: in a box layout, when every valid word ends
  in a letter that starts some dictionary word (so that no nil child is entered), the
  result is the number of solutions made of box words of at least three letters, as a
  64-bit integer.
\<close>

theorem numberOfSolutions_counts_chains:
  assumes "boxLayout g"
    and "list_all (\<lambda>w. lookup d (last w) \<noteq> None) (validWords d g)"
  shows "\<exists>n. numberOfSolutions d g = Inr n
           \<and> n = word_of_nat (card {chain. isSolution (boxValid d g) g chain})
           \<and> (card {chain. isSolution (boxValid d g) g chain} < 2 ^ 63 \<longrightarrow>
                sint n = int (card {chain. isSolution (boxValid d g) g chain}))"
  using numberOfSolutions_count[OF assms] sint_count by blast

theorem numberOfSolutions_counts_chains_witness:
  "boxLayout fixtureBox
   \<and> list_all (\<lambda>w. lookup fixtureTrie (last w) \<noteq> None) (validWords fixtureTrie fixtureBox)
   \<and> numberOfSolutions fixtureTrie fixtureBox = Inr 1
   \<and> word_of_nat (card {chain. isSolution (boxValid fixtureTrie fixtureBox) fixtureBox chain}) = (1 :: 64 word)"
proof -
  have nn: "list_all (\<lambda>w. lookup fixtureTrie (last w) \<noteq> None) (validWords fixtureTrie fixtureBox)"
    unfolding fixture_validWords by (simp add: lookup_def fixtureTrie_def)
  from numberOfSolutions_counts_chains[OF fixture_boxLayout nn] fixture_count fixture_boxLayout nn show ?thesis by auto
qed

theorem numberOfSolutions_misses_short_word_chain:
  "boxLayout fixtureBox
   \<and> numberOfSolutions shortWordTrie fixtureBox = Inr 0
   \<and> isSolution (boxWord shortWordTrie fixtureBox) fixtureBox [''ADGJBEH'', ''HK'', ''KCFIL'']"
proof -
  have t: "isTerminal shortWordTrie ''ADGJBEH''" "isTerminal shortWordTrie ''HK''"
    "isTerminal shortWordTrie ''KCFIL''"
    by (simp_all add: isTerminal_def lookup_def shortWordTrie_def)
  have s: "sideRule fixtureBox ''ADGJBEH''" "sideRule fixtureBox ''HK''" "sideRule fixtureBox ''KCFIL''"
    by (simp_all add: sameSide_def fixtureBox_def)
  have b: "set ''ADGJBEH'' \<subseteq> set (concat fixtureBox)" "set ''HK'' \<subseteq> set (concat fixtureBox)"
    "set ''KCFIL'' \<subseteq> set (concat fixtureBox)"
    by (simp_all add: fixtureBox_def)
  have c: "set (concat [''ADGJBEH'', ''HK'', ''KCFIL'']) = set (concat fixtureBox)"
    by (auto simp: fixtureBox_def)
  from t s b c have "isSolution (boxWord shortWordTrie fixtureBox) fixtureBox [''ADGJBEH'', ''HK'', ''KCFIL'']"
    by (simp add: isSolution_def boxWord_def del: set_concat)
  with fixture_boxLayout shortWord_count show ?thesis by blast
qed

end
